theory Spec2Isabelle
  imports Main "HOL-Library.AList"
begin

section \<open>Python values: exceptions, numpy vectors, dictionaries, the random source\<close>

text \<open>
  The program is \<^verbatim>\<open>src/kariba_moismcts.py\<close>. No exception is caught anywhere in it, so
  an exception ends the whole computation: every operation returns \<open>error + 'a\<close> and a
  state that was mutated half way before the exception is not observable.
  The exceptions are the Python classes the statements of the file can raise.
\<close>

datatype error =
  KeyError | IndexError | ValueError | AttributeError | TypeError | ZeroDivisionError | OverflowError

definition rbind :: "error + 'a \<Rightarrow> ('a \<Rightarrow> error + 'b) \<Rightarrow> error + 'b" where
  "rbind m f = (case m of Inl e \<Rightarrow> Inl e | Inr x \<Rightarrow> f x)"

text \<open>
  Count vectors are one-dimensional numpy arrays of 64-bit signed integers (\<^verbatim>\<open>dtype=int\<close>),
  modelled as lists of integers. \<open>fits64 x\<close> says that \<open>x\<close> is a 64-bit signed value and
  \<open>i64 x\<close> is what 64-bit arithmetic keeps of an integer result \<open>x\<close>: its two's-complement
  wrap-around.
\<close>

definition fits64 :: "int \<Rightarrow> bool" where
  "fits64 x \<longleftrightarrow> - (2 ^ 63) \<le> x \<and> x < 2 ^ 63"

definition i64 :: "int \<Rightarrow> int" where
  "i64 x = (x + 2 ^ 63) mod 2 ^ 64 - 2 ^ 63"

text \<open>
  Element-wise arithmetic follows numpy's broadcasting for one-dimensional operands: equal
  lengths, or a length-one operand that is stretched; any other pair of shapes raises
  ValueError. The in-place forms (\<^verbatim>\<open>a += b\<close>) keep the shape of \<open>a\<close>. The program uses
  element-wise arithmetic to move cards between the deck, the hands and the field and to
  subtract the cards drawn so far from the deck; its entries are computed on the
  integers, which is numpy's result whenever every entry of the result is a 64-bit value.
  The reduction \<^verbatim>\<open>np.sum\<close> is computed in 64 bits with its wrap-around (\<open>np_sum\<close>): a deck whose
  counts are 64-bit values one by one can have a sum that is not, and then numpy's sum is
  not the number of cards.
\<close>

type_synonym vec = "int list"

definition np_binop :: "(int \<Rightarrow> int \<Rightarrow> int) \<Rightarrow> vec \<Rightarrow> vec \<Rightarrow> error + vec" where
  "np_binop f a b =
     (if length a = length b then Inr (map2 f a b)
      else if length b = 1 then Inr (map (\<lambda>x. f x (hd b)) a)
      else if length a = 1 then Inr (map (\<lambda>y. f (hd a) y) b)
      else Inl ValueError)"

definition np_inplace :: "(int \<Rightarrow> int \<Rightarrow> int) \<Rightarrow> vec \<Rightarrow> vec \<Rightarrow> error + vec" where
  "np_inplace f a b =
     (if length a = length b then Inr (map2 f a b)
      else if length b = 1 then Inr (map (\<lambda>x. f x (hd b)) a)
      else Inl ValueError)"

definition np_add :: "vec \<Rightarrow> vec \<Rightarrow> error + vec" where
  "np_add a b = np_binop (+) a b"

definition np_sub :: "vec \<Rightarrow> vec \<Rightarrow> error + vec" where
  "np_sub a b = np_binop (-) a b"

definition np_iadd :: "vec \<Rightarrow> vec \<Rightarrow> error + vec" where
  "np_iadd a b = np_inplace (+) a b"

definition np_isub :: "vec \<Rightarrow> vec \<Rightarrow> error + vec" where
  "np_isub a b = np_inplace (-) a b"

definition np_sum :: "vec \<Rightarrow> int" where
  "np_sum a = i64 (sum_list a)"

definition np_zeros :: "nat \<Rightarrow> vec" where
  "np_zeros k = replicate k 0"

definition np_nonzero :: "vec \<Rightarrow> nat list" where
  "np_nonzero a = filter (\<lambda>i. a ! i \<noteq> 0) [0..<length a]"

text \<open>Indexing a sequence with a Python integer: a negative index counts from the end.\<close>

definition py_get :: "'a list \<Rightarrow> int \<Rightarrow> error + 'a" where
  "py_get xs i =
     (let k = int (length xs); j = (if i < 0 then k + i else i)
      in if 0 \<le> j \<and> j < k then Inr (xs ! nat j) else Inl IndexError)"

definition py_set :: "'a list \<Rightarrow> int \<Rightarrow> 'a \<Rightarrow> error + 'a list" where
  "py_set xs i v =
     (let k = int (length xs); j = (if i < 0 then k + i else i)
      in if 0 \<le> j \<and> j < k then Inr (xs[nat j := v]) else Inl IndexError)"

text \<open>
  A dict is an association list in insertion order; reading a missing key raises KeyError,
  assigning to a key replaces its value in place or appends the key.
\<close>

definition dict_get :: "('k \<times> 'v) list \<Rightarrow> 'k \<Rightarrow> error + 'v" where
  "dict_get d k = (case map_of d k of None \<Rightarrow> Inl KeyError | Some v \<Rightarrow> Inr v)"

definition dict_set :: "('k \<times> 'v) list \<Rightarrow> 'k \<Rightarrow> 'v \<Rightarrow> ('k \<times> 'v) list" where
  "dict_set d k v = AList.update k v d"

definition dict_from_keys :: "'k list \<Rightarrow> ('k \<Rightarrow> 'v) \<Rightarrow> ('k \<times> 'v) list" where
  "dict_from_keys ks f = fold (\<lambda>k d. dict_set d k (f k)) ks []"

text \<open>
  Modelled from the spec: \<^verbatim>\<open>util.one_hot\<close> is not among the source files; the spec lists
  "one-hot construction" over a species index among the vector primitives. It is the vector
  of \<open>n_dim\<close> zeros with a one at \<open>idx\<close>; the program only calls it with \<open>idx < n_dim\<close>.
\<close>

definition one_hot :: "nat \<Rightarrow> nat \<Rightarrow> vec" where
  "one_hot idx n_dim = (replicate n_dim 0)[idx := 1]"

text \<open>
  The process-wide random generators (\<^verbatim>\<open>np.random\<close>, \<^verbatim>\<open>random\<close>) are an explicit source of
  numbers, consumed in order; an exhausted source yields 0. A statement proved for every
  source holds for every run.
\<close>

type_synonym rng = "nat list"

definition next_random :: "rng \<Rightarrow> nat \<times> rng" where
  "next_random rs = (case rs of [] \<Rightarrow> (0, []) | r # rs' \<Rightarrow> (r, rs'))"

text \<open>
  \<^verbatim>\<open>np.random.choice(range(k), p=w / d)\<close> for an integer weight vector \<open>w\<close> and an integer
  denominator \<open>d\<close>. numpy raises ValueError when the population is empty, when \<open>p\<close> has
  another size, when \<open>p\<close> holds NaN or infinities (here: \<open>d = 0\<close>, the division itself only
  warns), when a probability is negative and when the probabilities do not sum to one.
  The probabilities are the floating-point quotients \<open>w\<^sub>i / d\<close>; they sum to one when the
  entries of \<open>w\<close> add up to \<open>d\<close> on the integers. (The program passes the 64-bit sum of \<open>w\<close>
  for \<open>d\<close>; if that sum wrapped around, the entries add up to \<open>d\<close> plus a non-zero multiple
  of \<open>2\<^sup>6\<^sup>4\<close> and the probabilities are off by two or more.) Otherwise it returns an
  index of positive probability; which one is taken from the random source.
\<close>

definition random_choice_p :: "rng \<Rightarrow> nat \<Rightarrow> vec \<Rightarrow> int \<Rightarrow> error + (nat \<times> rng)" where
  "random_choice_p rs k w d =
     (if k = 0 then Inl ValueError
      else if length w \<noteq> k then Inl ValueError
      else if d = 0 then Inl ValueError
      else if list_ex (\<lambda>x. (0 < d \<and> x < 0) \<or> (d < 0 \<and> 0 < x)) w then Inl ValueError
      else if sum_list w \<noteq> d then Inl ValueError
      else (let support = np_nonzero w; (r, rs') = next_random rs
            in Inr (support ! (r mod length support), rs')))"

text \<open>\<^verbatim>\<open>np.random.choice(xs)\<close> on a list: uniform, ValueError on an empty list.\<close>

definition random_choice :: "rng \<Rightarrow> 'a list \<Rightarrow> error + ('a \<times> rng)" where
  "random_choice rs xs =
     (if xs = [] then Inl ValueError
      else (let (r, rs') = next_random rs in Inr (xs ! (r mod length xs), rs')))"

section \<open>Events and the game state (class Kariba)\<close>

text \<open>
  An event is the Python dict \<^verbatim>\<open>{"kind": ..., "who": ..., "cards": ...}\<close>; the kinds the
  program builds are \<^verbatim>\<open>"deck_draw"\<close> and \<^verbatim>\<open>"action"\<close>.
\<close>

record event =
  kind :: string
  who :: string
  cards :: vec

record kariba =
  n_species :: nat
  max_n_hand :: int
  whose_turn_idx :: int
  player_names :: "string list"
  n_players :: nat
  deck :: vec
  field :: vec
  hands :: "(string \<times> vec) list"
  scoreboard :: "(string \<times> int) list"

text \<open>
  \<^verbatim>\<open>Kariba.__init__\<close>: the parameters \<^verbatim>\<open>field\<close> and \<^verbatim>\<open>hands\<close> are accepted and never read; the
  field and every hand start empty whatever the caller passes.
\<close>

definition Kariba_init :: "vec option \<Rightarrow> int \<Rightarrow> string list \<Rightarrow> nat \<Rightarrow> int \<Rightarrow> kariba" where
  "Kariba_init deck0 turn names S cap =
     \<lparr> n_species = S, max_n_hand = cap, whose_turn_idx = turn, player_names = names,
       n_players = length names,
       deck = (case deck0 of None \<Rightarrow> replicate S (max 3 (int S)) | Some d \<Rightarrow> d),
       field = np_zeros S,
       hands = dict_from_keys names (\<lambda>_. np_zeros S),
       scoreboard = dict_from_keys names (\<lambda>_. 0) \<rparr>"

definition whose_turn :: "kariba \<Rightarrow> error + string" where
  "whose_turn g = py_get (player_names g) (whose_turn_idx g)"

definition who_next_turn_idx :: "kariba \<Rightarrow> error + int" where
  "who_next_turn_idx g =
     (if n_players g = 0 then Inl ZeroDivisionError
      else Inr ((whose_turn_idx g + 1) mod int (n_players g)))"

fun hand_sums :: "(string \<times> vec) list \<Rightarrow> string list \<Rightarrow> error + int list" where
  "hand_sums hs [] = Inr []"
| "hand_sums hs (p # ps) =
     rbind (dict_get hs p) (\<lambda>h. rbind (hand_sums hs ps) (\<lambda>rest. Inr (np_sum h # rest)))"

definition is_final :: "kariba \<Rightarrow> error + bool" where
  "is_final g =
     (if np_sum (deck g) = 0
      then rbind (hand_sums (hands g) (player_names g)) (\<lambda>ss. Inr (list_ex (\<lambda>s. s = 0) ss))
      else Inr False)"

definition next_turn :: "kariba \<Rightarrow> error + kariba" where
  "next_turn g = rbind (who_next_turn_idx g) (\<lambda>t. Inr (g\<lparr>whose_turn_idx := t\<rparr>))"

text \<open>
  \<^verbatim>\<open>jungle\<close>: Python's \<^verbatim>\<open>sum\<close> of the list that starts with the deck and continues with the
  hand of every other player, in dict order (the initial \<^verbatim>\<open>0 + deck\<close> is the deck).
\<close>

fun np_add_all :: "vec \<Rightarrow> vec list \<Rightarrow> error + vec" where
  "np_add_all acc [] = Inr acc"
| "np_add_all acc (h # hs) = rbind (np_add acc h) (\<lambda>acc'. np_add_all acc' hs)"

definition jungle :: "kariba \<Rightarrow> string \<Rightarrow> error + vec" where
  "jungle g player = np_add_all (deck g) (map snd (filter (\<lambda>ph. fst ph \<noteq> player) (hands g)))"

text \<open>
  \<^verbatim>\<open>apply_event\<close>: two independent \<^verbatim>\<open>if\<close> statements on the kind. The chase effect reads
  the field after the played cards were added; \<open>fear_animal\<close> is \<open>-1\<close> when nothing is chased.
\<close>

definition fear_animal :: "kariba \<Rightarrow> vec \<Rightarrow> nat \<Rightarrow> int" where
  "fear_animal g fld action_animal =
     (if action_animal = 0 then int (n_species g) - 1
      else foldr max (map int (filter (\<lambda>idx. idx < action_animal) (np_nonzero fld))) (- 1))"

definition apply_deck_draw :: "event \<Rightarrow> kariba \<Rightarrow> error + kariba" where
  "apply_deck_draw e g =
     rbind (np_isub (deck g) (cards e)) (\<lambda>d.
     rbind (dict_get (hands g) (who e)) (\<lambda>h.
     rbind (np_iadd h (cards e)) (\<lambda>h'.
       Inr (g\<lparr>deck := d, hands := dict_set (hands g) (who e) h'\<rparr>))))"

definition chase :: "kariba \<Rightarrow> nat \<Rightarrow> error + kariba" where
  "chase g action_animal =
     rbind (py_get (field g) (int action_animal)) (\<lambda>played.
       if played \<ge> 3 then
         (let fear = fear_animal g (field g) action_animal
          in if fear \<ge> 0 then
               rbind (whose_turn g) (\<lambda>p.
               rbind (dict_get (scoreboard g) p) (\<lambda>s.
               rbind (py_get (field g) fear) (\<lambda>chased.
               rbind (py_set (field g) fear 0) (\<lambda>fld.
                 Inr (g\<lparr>scoreboard := dict_set (scoreboard g) p (s + chased), field := fld\<rparr>)))))
             else Inr g)
       else Inr g)"

definition apply_action :: "event \<Rightarrow> kariba \<Rightarrow> error + kariba" where
  "apply_action e g =
     rbind (dict_get (hands g) (who e)) (\<lambda>h.
     rbind (np_isub h (cards e)) (\<lambda>h'.
     rbind (np_iadd (field g) (cards e)) (\<lambda>fld.
       case np_nonzero (cards e) of
         [] \<Rightarrow> Inl IndexError
       | action_animal # _ \<Rightarrow>
           chase (g\<lparr>hands := dict_set (hands g) (who e) h', field := fld\<rparr>) action_animal)))"

definition apply_event :: "event \<Rightarrow> kariba \<Rightarrow> error + kariba" where
  "apply_event e g =
     rbind (if kind e = ''deck_draw'' then apply_deck_draw e g else Inr g) (\<lambda>g1.
       if kind e = ''action'' then apply_action e g1 else Inr g1)"

section \<open>Card conservation: the conserved quantity, well-formed states, event sequences\<close>


definition kariba_wf :: "kariba \<Rightarrow> bool" where
  "kariba_wf g \<longleftrightarrow>
     length (deck g) = n_species g \<and> length (field g) = n_species g \<and>
     list_all (\<lambda>ph. length (snd ph) = n_species g) (hands g)"



section \<open>Legal actions and the random card draw\<close>

text \<open>
  \<^verbatim>\<open>allowed_actions\<close>: for every species index in \<^verbatim>\<open>range(n_species)\<close> and every count from 1
  to the number of cards held, one action event; reading the hand at an index beyond its
  length raises IndexError.
\<close>

definition allowed_actions :: "kariba \<Rightarrow> string \<Rightarrow> error + event list" where
  "allowed_actions g player =
     rbind (dict_get (hands g) player) (\<lambda>hand.
       if length hand < n_species g then Inl IndexError
       else Inr (concat (map (\<lambda>idx.
              map (\<lambda>k. \<lparr>kind = ''action'', who = player,
                          cards = map (\<lambda>x. k * x) (one_hot idx (n_species g))\<rparr>)
                  [1..hand ! idx])
            [0..<n_species g])))"

text \<open>
  \<^verbatim>\<open>random_card_draw\<close>. The size of the hand and the size of the deck are numpy's 64-bit
  sums. \<^verbatim>\<open>max_n_hand\<close> is a Python integer: numpy subtracts the hand size from it in 64 bits
  and refuses, with OverflowError, a Python integer that is not a 64-bit value. The number
  of cards to draw can be negative; \<^verbatim>\<open>range\<close> is then empty. The body of the \<^verbatim>\<open>for\<close> loop
  is \<open>draw_step\<close>: the sampling weights are \<open>deck - cards\<close>, the denominator of the
  distribution is their 64-bit sum (\<open>denominator\<close>), and the drawn species is added to
  the cards drawn so far.
\<close>

definition n_to_draw :: "kariba \<Rightarrow> error + int" where
  "n_to_draw g =
     rbind (whose_turn g) (\<lambda>p.
     rbind (dict_get (hands g) p) (\<lambda>hand.
       if fits64 (max_n_hand g)
       then Inr (min (i64 (max_n_hand g - np_sum hand)) (np_sum (deck g)))
       else Inl OverflowError))"

definition denominator :: "kariba \<Rightarrow> vec \<Rightarrow> error + int" where
  "denominator g drawn = rbind (np_sub (deck g) drawn) (\<lambda>remaining. Inr (np_sum remaining))"

definition draw_step :: "rng \<Rightarrow> kariba \<Rightarrow> vec \<Rightarrow> error + (vec \<times> rng)" where
  "draw_step rs g drawn =
     rbind (np_sub (deck g) drawn) (\<lambda>remaining.
     rbind (denominator g drawn) (\<lambda>d.
     rbind (random_choice_p rs (n_species g) remaining d) (\<lambda>(idx, rs').
     rbind (np_iadd drawn (one_hot idx (n_species g))) (\<lambda>drawn'.
       Inr (drawn', rs')))))"

fun draw_loop :: "nat \<Rightarrow> rng \<Rightarrow> kariba \<Rightarrow> vec \<Rightarrow> error + (vec \<times> rng)" where
  "draw_loop 0 rs g drawn = Inr (drawn, rs)"
| "draw_loop (Suc k) rs g drawn =
     rbind (draw_step rs g drawn) (\<lambda>(drawn', rs'). draw_loop k rs' g drawn')"

definition random_card_draw :: "rng \<Rightarrow> kariba \<Rightarrow> error + (event \<times> rng)" where
  "random_card_draw rs g =
     rbind (n_to_draw g) (\<lambda>n.
     rbind (draw_loop (nat n) rs g (np_zeros (n_species g))) (\<lambda>(drawn, rs').
     rbind (whose_turn g) (\<lambda>p.
       Inr (\<lparr>kind = ''deck_draw'', who = p, cards = drawn\<rparr>, rs'))))"

text \<open>
  The states of the sampling loop: \<open>draw_state g j drawn\<close> holds when \<open>drawn\<close> can be the
  cards drawn after \<open>j\<close> executions of the loop body, starting from the zero vector.
\<close>

inductive draw_state :: "kariba \<Rightarrow> nat \<Rightarrow> vec \<Rightarrow> bool" where
  draw_start: "draw_state g 0 (np_zeros (n_species g))"
| draw_next: "draw_state g j drawn \<Longrightarrow> draw_step rs g drawn = Inr (drawn', rs') \<Longrightarrow>
     draw_state g (Suc j) drawn'"

definition nonneg_deck :: "kariba \<Rightarrow> bool" where
  "nonneg_deck g \<longleftrightarrow> list_all (\<lambda>x. 0 \<le> x) (deck g)"

definition vec_le :: "vec \<Rightarrow> vec \<Rightarrow> bool" where
  "vec_le a b \<longleftrightarrow> length a = length b \<and> list_all (\<lambda>(x, y). x \<le> y) (zip a b)"

section \<open>Information-set nodes (class Node)\<close>

text \<open>
  A \<^verbatim>\<open>Node\<close> object. The attributes \<^verbatim>\<open>action\<close> and \<^verbatim>\<open>w\<close> are only assigned for a post-action
  node, so they are optional here and reading a missing one raises AttributeError. The
  exploration constant \<^verbatim>\<open>c\<close> is a float that only enters the UCB score and is left out.
  The parent and the children are references to other nodes of the same tree: indices into
  the tree's list of nodes (see below). The fields are prefixed where the source's name is
  taken by the game state.
\<close>

record node =
  node_player :: string
  node_parent :: "nat option"
  node_children :: "nat list"
  node_whose_turn :: string
  node_hand :: vec
  node_field :: vec
  node_jungle :: vec
  node_n :: int
  is_root_node :: bool
  is_post_action_node :: bool
  untried_actions :: "event list option"
  node_action :: "event option"
  node_w :: "int option"

definition Node_init :: "kariba \<Rightarrow> string \<Rightarrow> event option \<Rightarrow> nat option \<Rightarrow> error + node" where
  "Node_init game player ev parent =
     rbind (whose_turn game) (\<lambda>turn.
     rbind (dict_get (hands game) player) (\<lambda>hand.
     rbind (jungle game player) (\<lambda>jgl.
       (let post = (case ev of None \<Rightarrow> False
                    | Some e \<Rightarrow> kind e = ''action'' \<and> who e = player)
        in Inr \<lparr> node_player = player, node_parent = parent, node_children = [],
                 node_whose_turn = turn, node_hand = hand, node_field = field game,
                 node_jungle = jgl, node_n = 0, is_root_node = (parent = None),
                 is_post_action_node = post, untried_actions = None,
                 node_action = (if post then ev else None),
                 node_w = (if post then Some 0 else None) \<rparr>))))"

text \<open>
  \<^verbatim>\<open>is_equivalent_node\<close>, as written: the second entry of the list compares
  \<^verbatim>\<open>node_a.is_post_action_node\<close> with \<^verbatim>\<open>node_a.is_post_action_node\<close>. \<^verbatim>\<open>np.array_equal\<close> on
  one-dimensional integer arrays is equality of the lists.
\<close>

definition is_equivalent_node :: "node \<Rightarrow> node \<Rightarrow> bool" where
  "is_equivalent_node node_a node_b \<longleftrightarrow>
     node_player node_a = node_player node_b \<and>
     is_post_action_node node_a = is_post_action_node node_a \<and>
     node_hand node_a = node_hand node_b \<and>
     node_field node_a = node_field node_b \<and>
     node_jungle node_a = node_jungle node_b"

text \<open>
  \<^verbatim>\<open>backpropagate\<close> climbs from a node to the root. A node is created after its parent, so
  a parent's index is below the child's; the recursion stops at a reference that breaks
  this order, which no tree built by the program has.
\<close>

function backpropagate :: "string \<Rightarrow> nat \<Rightarrow> node list \<Rightarrow> error + node list" where
  "backpropagate winner i ns =
     (let nd = ns ! i in
      if is_post_action_node nd \<and> node_w nd = None then Inl AttributeError
      else
        (let nd' = nd\<lparr>node_n := node_n nd + 1,
                      node_w := (if is_post_action_node nd
                                 then map_option (\<lambda>w. w + (if winner = node_player nd then 1 else 0))
                                        (node_w nd)
                                 else node_w nd)\<rparr>;
             ns' = ns[i := nd']
         in case node_parent nd of
              None \<Rightarrow> Inr ns'
            | Some p \<Rightarrow> if p < i then backpropagate winner p ns' else Inr ns'))"
  by pat_completeness auto
termination
  by (relation "measure (\<lambda>(winner, i, ns). i)") auto

declare backpropagate.simps [simp del]

section \<open>Per-player trees (class Tree)\<close>

text \<open>
  A tree owns its nodes: \<open>nodes\<close> lists them in creation order, and a node reference
  (\<open>root_node\<close>, \<open>current_node\<close>, a parent, a child) is an index into that list, so that the
  mutation of one node is seen through every reference to it. The attribute \<^verbatim>\<open>game\<close> of a
  tree is always the very object \<^verbatim>\<open>Simulators.game\<close> (assigned by reference at construction
  and again at every reset), so the operations below take the live game as an argument.
\<close>

record tree =
  tree_player :: string
  nodes :: "node list"
  root_node :: nat
  current_node :: nat
  is_on_rollout_policy :: bool

definition Tree_init :: "kariba \<Rightarrow> string \<Rightarrow> error + tree" where
  "Tree_init game player =
     rbind (Node_init game player None None) (\<lambda>root.
       Inr \<lparr> tree_player = player, nodes = [root], root_node = 0, current_node = 0,
             is_on_rollout_policy = False \<rparr>)"

text \<open>\<^verbatim>\<open>np.argmax\<close> of a list of integers: the first index of the maximum.\<close>

fun first_index :: "('a \<Rightarrow> bool) \<Rightarrow> 'a list \<Rightarrow> nat" where
  "first_index P [] = 0"
| "first_index P (x # xs) = (if P x then 0 else Suc (first_index P xs))"

definition np_argmax :: "int list \<Rightarrow> error + nat" where
  "np_argmax xs =
     (if xs = [] then Inl ValueError
      else Inr (first_index (\<lambda>x. x = foldr max xs (hd xs)) xs))"

text \<open>
  \<^verbatim>\<open>random.shuffle\<close>: for \<open>i\<close> from the last index down to 1, swap the entries \<open>i\<close> and
  \<open>j = randbelow(i + 1)\<close>.
\<close>

fun shuffle_from :: "nat \<Rightarrow> rng \<Rightarrow> 'a list \<Rightarrow> 'a list \<times> rng" where
  "shuffle_from 0 rs xs = (xs, rs)"
| "shuffle_from (Suc i) rs xs =
     (let (r, rs') = next_random rs; j = r mod (Suc i + 1)
      in shuffle_from i rs' (xs[Suc i := xs ! j, j := xs ! Suc i]))"

definition shuffle :: "rng \<Rightarrow> 'a list \<Rightarrow> 'a list \<times> rng" where
  "shuffle rs xs = shuffle_from (length xs - 1) rs xs"

text \<open>
  The UCB branch of \<^verbatim>\<open>select_action\<close>. The property \<^verbatim>\<open>ucb\<close> of a neutral child is \<^verbatim>\<open>None\<close>;
  that of a post-action child reads \<^verbatim>\<open>w\<close> and divides it by the visit count, so a zero
  count raises ZeroDivisionError while the list of scores is built. The scores themselves
  are floating-point numbers and are not computed: \<open>ucb\<close> only tells whether a child has
  one. \<^verbatim>\<open>np.argmax\<close> raises ValueError on an empty list, and TypeError when it has to compare
  \<^verbatim>\<open>None\<close>, that is on two or more scores one of which is \<^verbatim>\<open>None\<close>. When every child has a
  score, the index that wins the comparison is read from the source of numbers, so every
  outcome of the comparison is covered.
\<close>

definition ucb :: "node \<Rightarrow> error + bool" where
  "ucb c =
     (if is_post_action_node c then
        (case node_w c of
           None \<Rightarrow> Inl AttributeError
         | Some w \<Rightarrow> if node_n c = 0 then Inl ZeroDivisionError else Inr True)
      else Inr False)"

fun ucb_scores :: "node list \<Rightarrow> error + bool list" where
  "ucb_scores [] = Inr []"
| "ucb_scores (c # cs) =
     rbind (ucb c) (\<lambda>s. rbind (ucb_scores cs) (\<lambda>ss. Inr (s # ss)))"

definition argmax_ucb :: "rng \<Rightarrow> node list \<Rightarrow> error + (nat \<times> rng)" where
  "argmax_ucb rs children =
     rbind (ucb_scores children) (\<lambda>scores.
       if scores = [] then Inl ValueError
       else if list_ex Not scores
         then (if length scores = 1 then Inr (0, rs) else Inl TypeError)
       else (let (r, rs') = next_random rs in Inr (r mod length scores, rs')))"

text \<open>
  \<^verbatim>\<open>Tree.select_action(return_best_action=True)\<close>: the action of the most visited child of
  the current node.
\<close>

definition select_best_action :: "tree \<Rightarrow> error + event" where
  "select_best_action t =
     (let cur = nodes t ! current_node t
      in rbind (np_argmax (map (\<lambda>c. node_n (nodes t ! c)) (node_children cur))) (\<lambda>i.
           case node_action (nodes t ! (node_children cur ! i)) of
             None \<Rightarrow> Inl AttributeError
           | Some a \<Rightarrow> Inr a))"

text \<open>
  \<^verbatim>\<open>Tree.select_action()\<close> with the default argument: a random legal action on the rollout
  policy; otherwise the untried actions of the current node are set (and shuffled) on the
  first visit of a childless node, the last untried action is popped if there is one, and
  the child of highest UCB score gives the action when none is left. \<^verbatim>\<open>len(None)\<close> raises
  TypeError.
\<close>

definition select_action :: "kariba \<Rightarrow> rng \<Rightarrow> tree \<Rightarrow> error + (event \<times> tree \<times> rng)" where
  "select_action game rs t =
     (if is_on_rollout_policy t then
        rbind (allowed_actions game (tree_player t)) (\<lambda>acts.
        rbind (random_choice rs acts) (\<lambda>(a, rs'). Inr (a, t, rs')))
      else
        (let cur = nodes t ! current_node t
         in rbind (if untried_actions cur = None \<and> node_children cur = []
                   then rbind (allowed_actions game (tree_player t)) (\<lambda>acts.
                          (let (shuffled, rs1) = shuffle rs acts
                           in Inr (cur\<lparr>untried_actions := Some shuffled\<rparr>, rs1)))
                   else Inr (cur, rs)) (\<lambda>(cur1, rs1).
            case untried_actions cur1 of
              None \<Rightarrow> Inl TypeError
            | Some untried \<Rightarrow>
                if untried \<noteq> [] then
                  Inr (last untried,
                       t\<lparr>nodes := (nodes t)[current_node t :=
                                     cur1\<lparr>untried_actions := Some (butlast untried)\<rparr>]\<rparr>,
                       rs1)
                else
                  rbind (argmax_ucb rs1 (map (\<lambda>c. nodes t ! c) (node_children cur1))) (\<lambda>(i, rs2).
                    case node_action (nodes t ! (node_children cur1 ! i)) of
                      None \<Rightarrow> Inl AttributeError
                    | Some a \<Rightarrow> Inr (a, t\<lparr>nodes := (nodes t)[current_node t := cur1]\<rparr>, rs2)))))"

text \<open>
  \<^verbatim>\<open>Tree.apply_event\<close>; \<open>game\<close> is the live game, to which the event has already been applied.
  The candidate is compared with the current node first, then with its children in order.
\<close>

definition tree_apply_event :: "event \<Rightarrow> kariba \<Rightarrow> tree \<Rightarrow> error + tree" where
  "tree_apply_event ev game t =
     (if is_on_rollout_policy t then Inr t
      else
        rbind (Node_init game (tree_player t) (Some ev) (Some (current_node t))) (\<lambda>new_node.
          (let cur = nodes t ! current_node t
           in case find (\<lambda>i. is_equivalent_node (nodes t ! i) new_node)
                     (current_node t # node_children cur) of
                Some existing \<Rightarrow> Inr (t\<lparr>current_node := existing\<rparr>)
              | None \<Rightarrow>
                  Inr (t\<lparr>nodes := (nodes t)[current_node t :=
                                     cur\<lparr>node_children := node_children cur @ [length (nodes t)]\<rparr>]
                                   @ [new_node],
                         current_node := length (nodes t),
                         is_on_rollout_policy := True\<rparr>))))"

definition tree_backpropagate :: "string \<Rightarrow> tree \<Rightarrow> error + tree" where
  "tree_backpropagate winner t =
     rbind (backpropagate winner (current_node t) (nodes t)) (\<lambda>ns. Inr (t\<lparr>nodes := ns\<rparr>))"

section \<open>The coordinator (class Simulators) and the search (moismcts)\<close>

text \<open>
  Modelled from the spec: \<^verbatim>\<open>util.keywithmaxval\<close> is not among the source files. The spec
  describes \<^verbatim>\<open>leadingPlayer\<close> as the player with the maximum score, the reference picking the
  first maximum: the first key, in dict order, whose value is the largest.
\<close>

definition keywithmaxval :: "(string \<times> int) list \<Rightarrow> error + string" where
  "keywithmaxval d =
     rbind (np_argmax (map snd d)) (\<lambda>i. Inr (fst (d ! i)))"

definition leading_player :: "kariba \<Rightarrow> error + string" where
  "leading_player g = keywithmaxval (scoreboard g)"

record simulators =
  reset_state :: kariba
  game :: kariba
  tree_dict :: "(string \<times> tree) list"

fun build_trees :: "kariba \<Rightarrow> string list \<Rightarrow> (string \<times> tree) list \<Rightarrow> error + (string \<times> tree) list" where
  "build_trees g [] d = Inr d"
| "build_trees g (player # players) d =
     rbind (Tree_init g player) (\<lambda>t. build_trees g players (dict_set d player t))"

definition Simulators_init :: "kariba \<Rightarrow> error + simulators" where
  "Simulators_init g =
     rbind (build_trees g (player_names g) []) (\<lambda>trees.
       Inr \<lparr> reset_state = g, game = g, tree_dict = trees \<rparr>)"

definition sim_whose_turn :: "simulators \<Rightarrow> error + string" where
  "sim_whose_turn sim = whose_turn (game sim)"

definition sim_random_card_draw :: "rng \<Rightarrow> simulators \<Rightarrow> error + (event \<times> rng)" where
  "sim_random_card_draw rs sim = random_card_draw rs (game sim)"

definition sim_select_action :: "rng \<Rightarrow> simulators \<Rightarrow> error + (event \<times> simulators \<times> rng)" where
  "sim_select_action rs sim =
     rbind (sim_whose_turn sim) (\<lambda>p.
     rbind (dict_get (tree_dict sim) p) (\<lambda>t.
     rbind (select_action (game sim) rs t) (\<lambda>(a, t', rs').
       Inr (a, sim\<lparr>tree_dict := dict_set (tree_dict sim) p t'\<rparr>, rs'))))"

definition sim_select_best_action :: "simulators \<Rightarrow> error + event" where
  "sim_select_best_action sim =
     rbind (sim_whose_turn sim) (\<lambda>p.
     rbind (dict_get (tree_dict sim) p) (\<lambda>t. select_best_action t))"

text \<open>
  \<^verbatim>\<open>reset_game\<close>: the live game becomes a deep copy of the reset state (a copy of a value is
  the value), every tree's cursor goes back to its root and its policy flag is cleared.
\<close>

definition reset_game :: "simulators \<Rightarrow> simulators" where
  "reset_game sim =
     sim\<lparr>game := reset_state sim,
         tree_dict := map (\<lambda>(p, t). (p, t\<lparr>current_node := root_node t,
                                            is_on_rollout_policy := False\<rparr>))
                        (tree_dict sim)\<rparr>"

fun trees_apply_event :: "event \<Rightarrow> kariba \<Rightarrow> (string \<times> tree) list \<Rightarrow> error + (string \<times> tree) list" where
  "trees_apply_event ev g [] = Inr []"
| "trees_apply_event ev g ((p, t) # ts) =
     rbind (tree_apply_event ev g t) (\<lambda>t'.
     rbind (trees_apply_event ev g ts) (\<lambda>ts'. Inr ((p, t') # ts')))"

definition sim_apply_event :: "event \<Rightarrow> simulators \<Rightarrow> error + simulators" where
  "sim_apply_event ev sim =
     rbind (apply_event ev (game sim)) (\<lambda>g.
     rbind (trees_apply_event ev g (tree_dict sim)) (\<lambda>ts.
       Inr (sim\<lparr>game := g, tree_dict := ts\<rparr>)))"

definition sim_next_turn :: "simulators \<Rightarrow> error + simulators" where
  "sim_next_turn sim = rbind (next_turn (game sim)) (\<lambda>g. Inr (sim\<lparr>game := g\<rparr>))"

fun trees_backpropagate :: "string \<Rightarrow> (string \<times> tree) list \<Rightarrow> error + (string \<times> tree) list" where
  "trees_backpropagate winner [] = Inr []"
| "trees_backpropagate winner ((p, t) # ts) =
     rbind (tree_backpropagate winner t) (\<lambda>t'.
     rbind (trees_backpropagate winner ts) (\<lambda>ts'. Inr ((p, t') # ts')))"

definition sim_backpropagate :: "string \<Rightarrow> simulators \<Rightarrow> error + simulators" where
  "sim_backpropagate winner sim =
     rbind (trees_backpropagate winner (tree_dict sim)) (\<lambda>ts. Inr (sim\<lparr>tree_dict := ts\<rparr>))"

text \<open>
  One pass through the body of the \<^verbatim>\<open>while\<close> loop of \<^verbatim>\<open>moismcts\<close>: the draw, the action of
  the player on turn, the change of turn.
\<close>

definition play_turn :: "rng \<Rightarrow> simulators \<Rightarrow> error + (simulators \<times> rng)" where
  "play_turn rs sim =
     rbind (sim_random_card_draw rs sim) (\<lambda>(draw, rs1).
     rbind (sim_apply_event draw sim) (\<lambda>sim1.
     rbind (sim_select_action rs1 sim1) (\<lambda>(act, sim2, rs2).
     rbind (sim_apply_event act sim2) (\<lambda>sim3.
     rbind (sim_next_turn sim3) (\<lambda>sim4. Inr (sim4, rs2))))))"

text \<open>
  The \<^verbatim>\<open>while not simulators.game.is_final\<close> loop, with fuel: \<open>None\<close> means that the fuel ran
  out before the game was over; \<open>Some\<close> holds the exception or the state at the end.
\<close>

fun play_game :: "nat \<Rightarrow> rng \<Rightarrow> simulators \<Rightarrow> (error + (simulators \<times> rng)) option" where
  "play_game 0 rs sim = None"
| "play_game (Suc fuel) rs sim =
     (case is_final (game sim) of
        Inl e \<Rightarrow> Some (Inl e)
      | Inr True \<Rightarrow> Some (Inr (sim, rs))
      | Inr False \<Rightarrow>
          (case play_turn rs sim of
             Inl e \<Rightarrow> Some (Inl e)
           | Inr (sim', rs') \<Rightarrow> play_game fuel rs' sim'))"

text \<open>One iteration of the \<^verbatim>\<open>for\<close> loop: a simulated game, the winner, backpropagation, reset.\<close>

definition iteration :: "nat \<Rightarrow> rng \<Rightarrow> simulators \<Rightarrow> (error + (simulators \<times> rng)) option" where
  "iteration fuel rs sim =
     (case play_game fuel rs sim of
        None \<Rightarrow> None
      | Some (Inl e) \<Rightarrow> Some (Inl e)
      | Some (Inr (sim1, rs1)) \<Rightarrow>
          Some (rbind (leading_player (game sim1)) (\<lambda>winner.
                rbind (sim_backpropagate winner sim1) (\<lambda>sim2.
                  Inr (reset_game sim2, rs1)))))"

fun iterations :: "nat \<Rightarrow> nat \<Rightarrow> rng \<Rightarrow> simulators \<Rightarrow> (error + (simulators \<times> rng)) option" where
  "iterations 0 fuel rs sim = Some (Inr (sim, rs))"
| "iterations (Suc k) fuel rs sim =
     (case iteration fuel rs sim of
        None \<Rightarrow> None
      | Some (Inl e) \<Rightarrow> Some (Inl e)
      | Some (Inr (sim', rs')) \<Rightarrow> iterations k fuel rs' sim')"

text \<open>
  \<^verbatim>\<open>moismcts(root_state, n)\<close>; \<open>fuel\<close> bounds the turns of each simulated game and \<open>rs\<close> is the
  random source.
\<close>

definition moismcts :: "nat \<Rightarrow> rng \<Rightarrow> kariba \<Rightarrow> nat \<Rightarrow> (error + event) option" where
  "moismcts fuel rs root_state n =
     (case Simulators_init root_state of
        Inl e \<Rightarrow> Some (Inl e)
      | Inr sim \<Rightarrow>
          (case iterations n fuel rs sim of
             None \<Rightarrow> None
           | Some (Inl e) \<Rightarrow> Some (Inl e)
           | Some (Inr (sim', rs')) \<Rightarrow> Some (sim_select_best_action sim')))"

section \<open>Notions used in the statements\<close>

text \<open>
  \<open>cursor_children\<close> are the child nodes of the current node. \<open>node_inv\<close> is what
  \<^verbatim>\<open>Node.__init__\<close> establishes: the action attribute exists exactly on post-action nodes.
  \<open>tree_grows t t'\<close> relates a tree to a later state of itself within one simulated game.
  \<open>tree_shape\<close> lists, per player, the number of nodes, the cursor and the rollout flag.
\<close>

definition cursor_children :: "tree \<Rightarrow> node list" where
  "cursor_children t = map (\<lambda>c. nodes t ! c) (node_children (nodes t ! current_node t))"

definition node_inv :: "node \<Rightarrow> bool" where
  "node_inv c \<longleftrightarrow> (node_action c = None) = (\<not> is_post_action_node c)"

definition tree_shape :: "simulators \<Rightarrow> (string \<times> nat \<times> nat \<times> bool) list" where
  "tree_shape sim =
     map (\<lambda>(p, t). (p, length (nodes t), current_node t, is_on_rollout_policy t)) (tree_dict sim)"

definition tree_grows :: "tree \<Rightarrow> tree \<Rightarrow> bool" where
  "tree_grows t t' \<longleftrightarrow>
     (if is_on_rollout_policy t
      then t' = t
      else length (nodes t') = length (nodes t) + (if is_on_rollout_policy t' then 1 else 0))"

definition trees_grow :: "(string \<times> tree) list \<Rightarrow> (string \<times> tree) list \<Rightarrow> bool" where
  "trees_grow d d' \<longleftrightarrow> list_all2 (\<lambda>pt pt'. fst pt' = fst pt \<and> tree_grows (snd pt) (snd pt')) d d'"

text \<open>
  \<open>existing_nodes t\<close> are the nodes \<^verbatim>\<open>Tree.apply_event\<close> compares a candidate with, in the order
  of the loop: the current node, then its children. \<open>append_child t c\<close> is the tree after the
  three statements that follow the loop: \<open>c\<close> is a new child of the current node, the cursor
  is on it and the tree is on the rollout policy. \<open>at_root_selecting\<close> holds of the trees of
  a coordinator when each of them is selecting with the cursor on its root.
\<close>

definition existing_nodes :: "tree \<Rightarrow> nat list" where
  "existing_nodes t = current_node t # node_children (nodes t ! current_node t)"

definition append_child :: "tree \<Rightarrow> node \<Rightarrow> tree" where
  "append_child t c =
     t\<lparr>nodes := (nodes t)[current_node t :=
                   (nodes t ! current_node t)\<lparr>node_children :=
                      node_children (nodes t ! current_node t) @ [length (nodes t)]\<rparr>] @ [c],
       current_node := length (nodes t),
       is_on_rollout_policy := True\<rparr>"

definition at_root_selecting :: "(string \<times> tree) list \<Rightarrow> bool" where
  "at_root_selecting d \<longleftrightarrow>
     list_all (\<lambda>pt. \<not> is_on_rollout_policy (snd pt) \<and> current_node (snd pt) = root_node (snd pt)) d"

text \<open>
  The notions below describe player \<open>p\<close>'s tree during a search that starts on a state where
  \<open>p\<close> is to move and holds hand \<open>h\<close>. \<open>root_neutral h t\<close>: the root of \<open>t\<close> is node 0 and has
  hand \<open>h\<close>, every child reference points to a later node of the arena (so no node has the
  root as a child), and no child of the root carries an action. \<open>same_shape\<close> relates two
  arenas that differ in statistics only. \<open>mid_game\<close>: the cursor of \<open>p\<close>'s tree has left the
  root. \<open>at_root\<close>: a simulated game is about to start. \<open>draws_at_root g p h\<close>: in \<open>g\<close> it
  is \<open>p\<close>'s turn, \<open>p\<close> holds \<open>h\<close>, the cards of the deck number less than \<open>2\<^sup>6\<^sup>3\<close> and the
  draw that opens the turn takes at least one card.
\<close>

definition root_neutral :: "vec \<Rightarrow> tree \<Rightarrow> bool" where
  "root_neutral h t \<longleftrightarrow>
     nodes t \<noteq> [] \<and> root_node t = 0 \<and> node_hand (nodes t ! 0) = h \<and>
     list_all (\<lambda>nd. list_all (\<lambda>c. 0 < c \<and> c < length (nodes t)) (node_children nd)) (nodes t) \<and>
     list_all (\<lambda>c. node_action (nodes t ! c) = None) (node_children (nodes t ! 0))"

definition same_shape :: "node list \<Rightarrow> node list \<Rightarrow> bool" where
  "same_shape ns ns' \<longleftrightarrow>
     length ns' = length ns \<and>
     list_all2 (\<lambda>a b. node_children b = node_children a \<and> node_action b = node_action a \<and>
                       node_hand b = node_hand a) ns ns'"

definition mid_game :: "string \<Rightarrow> vec \<Rightarrow> simulators \<Rightarrow> bool" where
  "mid_game p h sim \<longleftrightarrow>
     (case map_of (tree_dict sim) p of
        None \<Rightarrow> False
      | Some t \<Rightarrow> tree_player t = p \<and> root_neutral h t \<and>
          0 < current_node t \<and> current_node t < length (nodes t))"

definition at_root :: "string \<Rightarrow> vec \<Rightarrow> kariba \<Rightarrow> simulators \<Rightarrow> bool" where
  "at_root p h g sim \<longleftrightarrow>
     game sim = g \<and> reset_state sim = g \<and>
     (case map_of (tree_dict sim) p of
        None \<Rightarrow> False
      | Some t \<Rightarrow> tree_player t = p \<and> root_neutral h t \<and>
          current_node t = 0 \<and> \<not> is_on_rollout_policy t)"

definition draws_at_root :: "kariba \<Rightarrow> string \<Rightarrow> vec \<Rightarrow> bool" where
  "draws_at_root g p h \<longleftrightarrow>
     kariba_wf g \<and> nonneg_deck g \<and> sum_list (deck g) < 2 ^ 63 \<and> fits64 (max_n_hand g) \<and>
     whose_turn g = Inr p \<and> dict_get (hands g) p = Inr h \<and>
     1 \<le> min (i64 (max_n_hand g - np_sum h)) (sum_list (deck g))"

section \<open>Example states\<close>

text \<open>
  Concrete inputs for the evaluations below. \<open>g_chase\<close> is a four-species game in which
  player0 holds a third card of species 2. \<open>g_no_species\<close> is what
  \<^verbatim>\<open>Kariba(deck=np.array([5]), n_species=0)\<close> builds, and \<open>g_wide\<close> what
  \<^verbatim>\<open>Kariba(deck=np.array([2**62, 2**62]), n_species=2)\<close> builds: a deck whose counts are 64-bit
  values and whose sum is not. \<open>g_after_action\<close> and \<open>g_after_draw\<close> are
  two consecutive states of a two-species game: after player0 played a card, and after
  player1 then drew two cards. \<open>g_one_card\<close> is \<^verbatim>\<open>Kariba(deck=np.array([1]), n_species=1,
  max_n_hand=1)\<close>; \<open>sim_after k\<close> is the coordinator after \<open>k\<close> iterations of the search on
  it (with the random source that always yields 0), \<open>sim_game_end k\<close> the coordinator at
  the end of the next simulated game, before backpropagation and reset; \<open>tree_player0\<close> and
  \<open>tree_player1\<close> are trees taken from these, as are \<open>tree_fresh0\<close> (player0's tree before the
  first game) and \<open>tree_rolling0\<close> (player0's tree at the end of the first game, rolling
  out); \<open>ev_draw_one\<close> is player0's draw of the only card and \<open>node_after_draw\<close> the node
  that player0's tree builds for it. \<open>g_fresh\<close> is the state of the end-to-end
  example of the specification, \<^verbatim>\<open>Kariba(deck=np.array([4, 4]), n_species=2, max_n_hand=2)\<close>.
\<close>

definition g_chase :: kariba where
  "g_chase = \<lparr> n_species = 4, max_n_hand = 5, whose_turn_idx = 0,
     player_names = [''player0'', ''player1''], n_players = 2,
     deck = [1, 1, 1, 1], field = [2, 0, 2, 0],
     hands = [(''player0'', [0, 0, 1, 0]), (''player1'', [0, 0, 0, 0])],
     scoreboard = [(''player0'', 0), (''player1'', 0)] \<rparr>"


definition g_no_species :: kariba where
  "g_no_species = Kariba_init (Some [5]) 0 [''player0'', ''player1''] 0 5"


definition g_after_action :: kariba where
  "g_after_action = \<lparr> n_species = 2, max_n_hand = 2, whose_turn_idx = 0,
     player_names = [''player0'', ''player1''], n_players = 2,
     deck = [3, 3], field = [1, 0],
     hands = [(''player0'', [0, 1]), (''player1'', [0, 0])],
     scoreboard = [(''player0'', 0), (''player1'', 0)] \<rparr>"

definition g_after_draw :: kariba where
  "g_after_draw = g_after_action\<lparr>whose_turn_idx := 1, deck := [2, 2],
     hands := [(''player0'', [0, 1]), (''player1'', [1, 1])]\<rparr>"

definition g_one_card :: kariba where
  "g_one_card = Kariba_init (Some [1]) 0 [''player0'', ''player1''] 1 1"

definition sim_after :: "nat \<Rightarrow> simulators" where
  "sim_after k =
     (case Simulators_init g_one_card of
        Inr sim \<Rightarrow> (case iterations k 5 [] sim of Some (Inr (s, rs)) \<Rightarrow> s | _ \<Rightarrow> sim)
      | Inl e \<Rightarrow> \<lparr>reset_state = g_one_card, game = g_one_card, tree_dict = []\<rparr>)"

definition sim_game_end :: "nat \<Rightarrow> simulators" where
  "sim_game_end k =
     (case play_game 5 [] (sim_after k) of Some (Inr (s, rs)) \<Rightarrow> s | _ \<Rightarrow> sim_after k)"

definition g_one_card_drawn :: kariba where
  "g_one_card_drawn = g_one_card\<lparr>deck := [0], hands := [(''player0'', [1]), (''player1'', [0])]\<rparr>"

definition tree_player1 :: tree where
  "tree_player1 = snd (tree_dict (sim_after 0) ! 1)"

definition tree_player0 :: tree where
  "tree_player0 = snd (tree_dict (sim_after 3) ! 0)"

definition g_fresh :: kariba where
  "g_fresh = Kariba_init (Some [4, 4]) 0 [''player0'', ''player1''] 2 2"

definition g_wide :: kariba where
  "g_wide = Kariba_init (Some [2 ^ 62, 2 ^ 62]) 0 [''player0'', ''player1''] 2 5"

definition ev_draw_one :: event where
  "ev_draw_one = \<lparr>kind = ''deck_draw'', who = ''player0'', cards = [1]\<rparr>"

definition node_after_draw :: node where
  "node_after_draw =
     \<lparr>node_player = ''player0'', node_parent = Some 0, node_children = [],
      node_whose_turn = ''player0'', node_hand = [1], node_field = [0], node_jungle = [0],
      node_n = 0, is_root_node = False, is_post_action_node = False, untried_actions = None,
      node_action = None, node_w = None\<rparr>"

definition tree_fresh0 :: tree where
  "tree_fresh0 = snd (tree_dict (sim_after 0) ! 0)"

definition tree_rolling0 :: tree where
  "tree_rolling0 = snd (tree_dict (sim_game_end 0) ! 0)"

section \<open>Basic facts\<close>

lemma rbind_Inl [simp]: "rbind (Inl e) f = Inl e"
  by (simp add: rbind_def)

lemma rbind_Inr [simp]: "rbind (Inr x) f = f x"
  by (simp add: rbind_def)

lemma rbind_eq_Inr: "rbind m f = Inr y \<longleftrightarrow> (\<exists>x. m = Inr x \<and> f x = Inr y)"
  by (cases m) simp_all

lemma np_inplace_same [simp]: "length a = length b \<Longrightarrow> np_inplace f a b = Inr (map2 f a b)"
  by (simp add: np_inplace_def)

lemma np_binop_same [simp]: "length a = length b \<Longrightarrow> np_binop f a b = Inr (map2 f a b)"
  by (simp add: np_binop_def)


lemma py_set_nat [simp]: "i < length xs \<Longrightarrow> py_set xs (int i) v = Inr (xs[i := v])"
  by (simp add: py_set_def)

lemma foldr_max_Max: "foldr max xs (b::int) = Max (insert b (set xs))"
proof (induction xs)
  case Nil
  show ?case by simp
next
  case (Cons x xs)
  have "Max (insert b (set (x # xs))) = Max (insert x (insert b (set xs)))"
    by (simp add: insert_commute)
  also have "\<dots> = max x (Max (insert b (set xs)))"
    by (rule Max_insert) simp_all
  finally show ?case using Cons by simp
qed

lemma set_np_nonzero: "set (np_nonzero a) = {i. i < length a \<and> a ! i \<noteq> 0}"
  by (auto simp: np_nonzero_def)




section \<open>The chase effect\<close>










section \<open>Card conservation\<close>

lemma sum_list_map2_add:
  "length a = length b \<Longrightarrow> sum_list (map2 (+) a b) = sum_list a + sum_list (b::int list)"
  by (induction a b rule: list_induct2) simp_all

lemma sum_list_map2_sub:
  "length a = length b \<Longrightarrow> sum_list (map2 (-) a b) = sum_list a - sum_list (b::int list)"
  by (induction a b rule: list_induct2) simp_all



lemma rbindE:
  assumes "rbind m f = Inr y"
  obtains x where "m = Inr x" "f x = Inr y"
  using assms by (cases m) simp_all



lemma dict_get_Inr: "dict_get d k = Inr v \<longleftrightarrow> map_of d k = Some v"
  by (simp add: dict_get_def split: option.splits)



lemma map_of_list_all: "map_of d k = Some v \<Longrightarrow> list_all (\<lambda>ph. P (snd ph)) d \<Longrightarrow> P v"
  by (induction d) (auto split: if_splits)

lemma sum_list_update_int: "i < length xs \<Longrightarrow> sum_list (xs[i := v]) = sum_list xs - xs ! i + (v::int)"
proof (induction xs arbitrary: i)
  case Nil then show ?case by simp
next
  case (Cons x xs) then show ?case by (cases i) simp_all
qed










section \<open>The random card draw\<close>

subsection \<open>64-bit sums\<close>

lemma i64_id: "fits64 x \<Longrightarrow> i64 x = x"
  by (simp add: fits64_def i64_def)

lemma fits64_i64 [simp]: "fits64 (i64 x)"
proof -
  have "0 \<le> (x + 2 ^ 63) mod (2 ^ 64 :: int)" "(x + 2 ^ 63) mod (2 ^ 64 :: int) < 2 ^ 64"
    by simp_all
  then show ?thesis unfolding fits64_def i64_def by simp
qed

lemma i64_diff_left: "i64 (i64 a - b) = i64 (a - b)"
proof -
  have "(i64 a - b + 2 ^ 63) = ((a + 2 ^ 63) mod 2 ^ 64 - b)" by (simp add: i64_def)
  moreover have "((a + 2 ^ 63) mod 2 ^ 64 - b) mod 2 ^ 64 = (a + 2 ^ 63 - b) mod (2 ^ 64 :: int)"
    by (rule mod_diff_left_eq)
  ultimately show ?thesis by (simp add: i64_def algebra_simps)
qed

lemma fits64_np_sum [simp]: "fits64 (np_sum a)"
  by (simp add: np_sum_def)

lemma np_sum_id: "fits64 (sum_list a) \<Longrightarrow> np_sum a = sum_list a"
  by (simp add: np_sum_def i64_id)

lemma fits64_between: "0 \<le> x \<Longrightarrow> x \<le> y \<Longrightarrow> fits64 y \<Longrightarrow> fits64 x"
  by (simp add: fits64_def)

lemma fits64_nonneg: "0 \<le> x \<Longrightarrow> x < 2 ^ 63 \<Longrightarrow> fits64 x"
  by (simp add: fits64_def)

subsection \<open>One sampling step\<close>

lemma np_nonzero_nth:
  assumes "np_nonzero w \<noteq> []"
  shows "np_nonzero w ! (r mod length (np_nonzero w)) < length w \<and>
         w ! (np_nonzero w ! (r mod length (np_nonzero w))) \<noteq> 0"
proof -
  have "np_nonzero w ! (r mod length (np_nonzero w)) \<in> set (np_nonzero w)"
    using assms by (intro nth_mem) simp
  then show ?thesis by (simp add: set_np_nonzero)
qed

lemma np_nonzero_empty: "np_nonzero w = [] \<Longrightarrow> sum_list w = 0"
proof -
  assume "np_nonzero w = []"
  then have "\<forall>i<length w. w ! i = 0"
    by (auto simp: np_nonzero_def filter_empty_conv)
  then have "\<forall>x\<in>set w. x = 0" by (auto simp: in_set_conv_nth)
  then show "sum_list w = 0" by (induction w) simp_all
qed

lemma random_choice_p_Inr:
  assumes "random_choice_p rs k w d = Inr (idx, rs')"
  shows "idx < k \<and> length w = k \<and> w ! idx \<noteq> 0 \<and> d = sum_list w \<and> d \<noteq> 0"
proof -
  from assms have c: "k \<noteq> 0" "length w = k" "d \<noteq> 0" "sum_list w = d"
    and i: "idx = np_nonzero w ! (fst (next_random rs) mod length (np_nonzero w))"
    by (auto simp: random_choice_p_def Let_def split: if_splits prod.splits)
  have "np_nonzero w \<noteq> []" using c np_nonzero_empty by auto
  from np_nonzero_nth[OF this] i c show ?thesis by simp
qed

lemma random_choice_p_ok:
  assumes "0 < d" "sum_list w = d" "length w = k" "\<forall>x\<in>set w. 0 \<le> x"
  shows "\<exists>idx rs'. random_choice_p rs k w d = Inr (idx, rs')"
proof -
  have "w \<noteq> []" using assms(1,2) by auto
  then have "k \<noteq> 0" using assms(3) by auto
  moreover have "\<not> list_ex (\<lambda>x. (0 < d \<and> x < 0) \<or> (d < 0 \<and> 0 < x)) w"
    using assms(1,4) by (auto simp: list_ex_iff)
  ultimately show ?thesis using assms
    by (simp add: random_choice_p_def Let_def split: prod.splits)
qed

lemma random_choice_p_zero: "random_choice_p rs k w 0 = Inl ValueError"
  by (simp add: random_choice_p_def)

lemma length_one_hot [simp]: "length (one_hot i n) = n"
  by (simp add: one_hot_def)

lemma add_one_hot:
  assumes "length xs = n" "i < n"
  shows "map2 (+) xs (one_hot i n) = xs[i := xs ! i + 1]"
  using assms by (intro nth_equalityI) (auto simp: one_hot_def nth_list_update)

lemma draw_stepE:
  assumes "draw_step rs g drawn = Inr (drawn', rs')" "length drawn = n_species g"
  obtains idx remaining where "np_sub (deck g) drawn = Inr remaining"
    "denominator g drawn = Inr (sum_list remaining)" "sum_list remaining \<noteq> 0"
    "idx < n_species g" "remaining ! idx \<noteq> 0" "length remaining = n_species g"
    "drawn' = drawn[idx := drawn ! idx + 1]"
proof -
  from assms(1) obtain remaining where r: "np_sub (deck g) drawn = Inr remaining"
    and 1: "rbind (denominator g drawn) (\<lambda>d.
     rbind (random_choice_p rs (n_species g) remaining d) (\<lambda>(idx, rs').
     rbind (np_iadd drawn (one_hot idx (n_species g))) (\<lambda>drawn'.
       Inr (drawn', rs')))) = Inr (drawn', rs')"
    unfolding draw_step_def by (rule rbindE)
  have d: "denominator g drawn = Inr (np_sum remaining)" by (simp add: denominator_def r)
  from 1 obtain ir where c: "random_choice_p rs (n_species g) remaining (np_sum remaining) = Inr ir"
    and 2: "(case ir of (idx, rs') \<Rightarrow> rbind (np_iadd drawn (one_hot idx (n_species g))) (\<lambda>drawn'.
       Inr (drawn', rs'))) = Inr (drawn', rs')"
    unfolding d rbind_Inr by (rule rbindE)
  obtain idx rs1 where ir: "ir = (idx, rs1)" by (cases ir)
  note p = random_choice_p_Inr[OF c[unfolded ir]]
  then have e: "np_sum remaining = sum_list remaining" by simp
  have "np_iadd drawn (one_hot idx (n_species g)) = Inr (drawn[idx := drawn ! idx + 1])"
    using assms(2) p by (simp add: np_iadd_def add_one_hot)
  with 2 have d1: "drawn' = drawn[idx := drawn ! idx + 1]" by (simp add: ir)
  have d': "denominator g drawn = Inr (sum_list remaining)" using d e by simp
  from p have "sum_list remaining \<noteq> 0" "idx < n_species g" "remaining ! idx \<noteq> 0"
    "length remaining = n_species g" using e by simp_all
  with r d' d1 that show thesis by blast
qed

lemma draw_state_inv:
  "draw_state g j drawn \<Longrightarrow> length drawn = n_species g \<and> sum_list drawn = int j"
proof (induction rule: draw_state.induct)
  case (draw_start g)
  show ?case by (simp add: np_zeros_def sum_list_replicate)
next
  case (draw_next g j drawn rs drawn' rs')
  then have l: "length drawn = n_species g" and s: "sum_list drawn = int j" by simp_all
  from draw_stepE[OF draw_next.hyps(2) l] obtain idx where
    "idx < n_species g" "drawn' = drawn[idx := drawn ! idx + 1]" by blast
  then show ?case using l s by (simp add: sum_list_update_int)
qed

lemma denominator_eq:
  assumes "length (deck g) = n_species g" "length drawn = n_species g"
  shows "denominator g drawn = Inr (i64 (sum_list (deck g) - sum_list drawn))"
  using assms by (simp add: denominator_def np_sub_def np_binop_def np_sum_def sum_list_map2_sub)

lemma n_to_draw_le: "n_to_draw g = Inr n \<Longrightarrow> n \<le> np_sum (deck g)"
  by (auto simp: n_to_draw_def rbind_eq_Inr split: if_splits)

lemma denominator_at_step:
  assumes "length (deck g) = n_species g" and "n_to_draw g = Inr n"
    and "draw_state g j drawn" and "int j < n"
  shows "denominator g drawn = Inr (np_sum (deck g) - int j)" "0 < np_sum (deck g) - int j"
proof -
  from draw_state_inv[OF assms(3)] have l: "length drawn = n_species g"
    and s: "sum_list drawn = int j" by simp_all
  show pos: "0 < np_sum (deck g) - int j" using n_to_draw_le[OF assms(2)] assms(4) by simp
  have f: "fits64 (np_sum (deck g))" by (rule fits64_np_sum)
  have "fits64 (np_sum (deck g) - int j)"
  proof (rule fits64_between)
    show "0 \<le> np_sum (deck g) - int j" using pos by linarith
    show "np_sum (deck g) - int j \<le> np_sum (deck g)" by linarith
    show "fits64 (np_sum (deck g))" by (rule f)
  qed
  then have a: "i64 (np_sum (deck g) - int j) = np_sum (deck g) - int j" by (rule i64_id)
  have b: "i64 (sum_list (deck g) - int j) = i64 (np_sum (deck g) - int j)"
    unfolding np_sum_def by (rule i64_diff_left[symmetric])
  have "denominator g drawn = Inr (i64 (sum_list (deck g) - int j))"
    using denominator_eq[OF assms(1) l] by (simp only: s)
  then show "denominator g drawn = Inr (np_sum (deck g) - int j)"
    by (simp only: a b)
qed

lemma zero_denominator_step:
  assumes "denominator g drawn = Inr 0"
  shows "draw_step rs g drawn = Inl ValueError"
proof -
  from assms obtain remaining where "np_sub (deck g) drawn = Inr remaining"
    by (auto simp: denominator_def rbind_eq_Inr)
  then show ?thesis using assms by (simp add: draw_step_def random_choice_p_zero)
qed

subsection \<open>The whole draw\<close>

lemma draw_step_ok:
  assumes "length (deck g) = n_species g" "length drawn = n_species g"
    and "\<forall>i<n_species g. drawn ! i \<le> deck g ! i"
    and "0 \<le> sum_list drawn" and "sum_list drawn < sum_list (deck g)"
    and "sum_list (deck g) < 2 ^ 63"
  shows "\<exists>drawn' rs'. draw_step rs g drawn = Inr (drawn', rs')"
proof -
  let ?rem = "map2 (-) (deck g) drawn"
  have r: "np_sub (deck g) drawn = Inr ?rem" using assms(1,2) by (simp add: np_sub_def np_binop_def)
  have s: "sum_list ?rem = sum_list (deck g) - sum_list drawn"
    using assms(1,2) by (simp add: sum_list_map2_sub)
  have pos: "0 < sum_list ?rem" using s assms(5) by simp
  have "fits64 (sum_list ?rem)"
    using s assms(4,5,6) by (intro fits64_nonneg) simp_all
  then have e: "np_sum ?rem = sum_list ?rem" by (rule np_sum_id)
  have d: "denominator g drawn = Inr (sum_list ?rem)" by (simp add: denominator_def r e)
  have nn: "\<forall>x\<in>set ?rem. 0 \<le> x"
    using assms(1,2,3) by (auto simp: in_set_conv_nth)
  have len: "length ?rem = n_species g" using assms(1,2) by simp
  from random_choice_p_ok[OF pos refl len nn] obtain idx rs'
    where c: "random_choice_p rs (n_species g) ?rem (sum_list ?rem) = Inr (idx, rs')" by blast
  have "idx < n_species g" using random_choice_p_Inr[OF c] by simp
  then have "np_iadd drawn (one_hot idx (n_species g)) = Inr (drawn[idx := drawn ! idx + 1])"
    using assms(2) by (simp add: np_iadd_def np_inplace_def add_one_hot)
  then show ?thesis by (simp add: draw_step_def r d c)
qed

lemma sum_list_nonneg_nth:
  assumes "\<forall>i<length xs. 0 \<le> (xs ! i :: int)"
  shows "0 \<le> sum_list xs"
  using assms by (intro sum_list_nonneg) (auto simp: in_set_conv_nth)

lemma draw_loop_ok:
  assumes "length (deck g) = n_species g" and "sum_list (deck g) < 2 ^ 63"
  shows "length drawn = n_species g \<Longrightarrow>
     \<forall>i<n_species g. 0 \<le> drawn ! i \<and> drawn ! i \<le> deck g ! i \<Longrightarrow>
     sum_list drawn + int k \<le> sum_list (deck g) \<Longrightarrow>
     \<exists>drawn' rs'. draw_loop k rs g drawn = Inr (drawn', rs') \<and> length drawn' = n_species g \<and>
       (\<forall>i<n_species g. 0 \<le> drawn' ! i \<and> drawn' ! i \<le> deck g ! i) \<and>
       sum_list drawn' = sum_list drawn + int k"
proof (induction k arbitrary: rs drawn)
  case 0
  then show ?case by simp
next
  case (Suc k)
  have lt: "sum_list drawn < sum_list (deck g)" using Suc.prems(3) by simp
  have nn: "0 \<le> sum_list drawn"
    using Suc.prems(1,2) by (intro sum_list_nonneg_nth) simp
  have le: "\<forall>i<n_species g. drawn ! i \<le> deck g ! i" using Suc.prems(2) by simp
  from draw_step_ok[OF assms(1) Suc.prems(1) le nn lt assms(2)] obtain d1 rs1
    where st: "draw_step rs g drawn = Inr (d1, rs1)" by blast
  from draw_stepE[OF st Suc.prems(1)] obtain idx remaining where
    r: "np_sub (deck g) drawn = Inr remaining" and i: "idx < n_species g"
    and nz: "remaining ! idx \<noteq> 0" and d1: "d1 = drawn[idx := drawn ! idx + 1]" by blast
  have rem: "remaining = map2 (-) (deck g) drawn"
    using r assms(1) Suc.prems(1) by (simp add: np_sub_def np_binop_def)
  have lt_idx: "drawn ! idx < deck g ! idx"
    using nz i Suc.prems(1,2) assms(1) by (auto simp: rem dest!: spec[of _ idx])
  have l1: "length d1 = n_species g" using Suc.prems(1) by (simp add: d1)
  have b1: "\<forall>i<n_species g. 0 \<le> d1 ! i \<and> d1 ! i \<le> deck g ! i"
  proof (intro allI impI)
    fix j assume j: "j < n_species g"
    with Suc.prems(2) have "0 \<le> drawn ! j \<and> drawn ! j \<le> deck g ! j" by simp
    then show "0 \<le> d1 ! j \<and> d1 ! j \<le> deck g ! j"
      using lt_idx j Suc.prems(1) by (cases "j = idx") (simp_all add: d1)
  qed
  have s1: "sum_list d1 = sum_list drawn + 1"
    using i Suc.prems(1) by (simp add: d1 sum_list_update_int)
  have "sum_list d1 + int k \<le> sum_list (deck g)" using s1 Suc.prems(3) by simp
  from Suc.IH[OF l1 b1 this, of rs1] obtain d2 rs2 where
    "draw_loop k rs1 g d1 = Inr (d2, rs2)" "length d2 = n_species g"
    "\<forall>i<n_species g. 0 \<le> d2 ! i \<and> d2 ! i \<le> deck g ! i" "sum_list d2 = sum_list d1 + int k"
    by blast
  then show ?case using st s1 by simp
qed

lemma n_to_draw_eq:
  assumes "whose_turn g = Inr p" and "dict_get (hands g) p = Inr hand"
    and "fits64 (max_n_hand g)"
  shows "n_to_draw g = Inr (min (i64 (max_n_hand g - np_sum hand)) (np_sum (deck g)))"
  using assms by (simp add: n_to_draw_def)

lemma random_card_draw_ok:
  assumes "length (deck g) = n_species g" and "nonneg_deck g" and "sum_list (deck g) < 2 ^ 63"
    and "fits64 (max_n_hand g)"
    and "whose_turn g = Inr p" and "dict_get (hands g) p = Inr hand"
  shows "\<exists>drawn rs'.
     random_card_draw rs g = Inr (\<lparr>kind = ''deck_draw'', who = p, cards = drawn\<rparr>, rs') \<and>
     sum_list drawn = max 0 (min (i64 (max_n_hand g - np_sum hand)) (sum_list (deck g))) \<and>
     list_all (\<lambda>x. 0 \<le> x) drawn \<and> vec_le drawn (deck g)"
proof -
  let ?n = "min (i64 (max_n_hand g - np_sum hand)) (sum_list (deck g))"
  have nnd: "0 \<le> sum_list (deck g)"
    using assms(2) unfolding nonneg_deck_def
    by (intro sum_list_nonneg) (simp add: list_all_iff)
  have e: "np_sum (deck g) = sum_list (deck g)"
    using nnd assms(3) by (intro np_sum_id fits64_nonneg)
  have n: "n_to_draw g = Inr ?n" using n_to_draw_eq[OF assms(5,6,4)] by (simp add: e)
  note ld = assms(1)
  have nn: "\<forall>i<n_species g. 0 \<le> deck g ! i"
    using assms(2) ld by (simp add: nonneg_deck_def list_all_length)
  have z: "length (np_zeros (n_species g)) = n_species g"
    "\<forall>i<n_species g. 0 \<le> np_zeros (n_species g) ! i \<and> np_zeros (n_species g) ! i \<le> deck g ! i"
    "sum_list (np_zeros (n_species g)) = 0"
    using nn by (simp_all add: np_zeros_def sum_list_replicate)
  have "sum_list (np_zeros (n_species g)) + int (nat ?n) \<le> sum_list (deck g)"
    using nnd z(3) by simp
  from draw_loop_ok[OF ld assms(3) z(1) z(2) this, of rs] obtain drawn rs' where
    l: "draw_loop (nat ?n) rs g (np_zeros (n_species g)) = Inr (drawn, rs')"
    and len: "length drawn = n_species g"
    and b: "\<forall>i<n_species g. 0 \<le> drawn ! i \<and> drawn ! i \<le> deck g ! i"
    and s: "sum_list drawn = sum_list (np_zeros (n_species g)) + int (nat ?n)" by blast
  have "random_card_draw rs g = Inr (\<lparr>kind = ''deck_draw'', who = p, cards = drawn\<rparr>, rs')"
    using n l assms(5) by (simp add: random_card_draw_def)
  moreover have "sum_list drawn = max 0 ?n" using s z(3) by (simp only: int_nat_eq) auto
  moreover have "list_all (\<lambda>x. 0 \<le> x) drawn" using b len by (simp add: list_all_length)
  moreover have "vec_le drawn (deck g)"
    using b len ld by (simp add: vec_le_def list_all_length)
  ultimately show ?thesis by blast
qed

subsection \<open>The claims on the draw\<close>

lemma g_no_species_eq:
  "g_no_species = \<lparr> n_species = 0, max_n_hand = 5, whose_turn_idx = 0,
      player_names = [''player0'', ''player1''], n_players = 2, deck = [5], field = [],
      hands = [(''player0'', []), (''player1'', [])],
      scoreboard = [(''player0'', 0), (''player1'', 0)] \<rparr>"
  by (simp add: g_no_species_def Kariba_init_def dict_from_keys_def dict_set_def np_zeros_def)

lemma g_wide_eq:
  "g_wide = \<lparr> n_species = 2, max_n_hand = 5, whose_turn_idx = 0,
      player_names = [''player0'', ''player1''], n_players = 2,
      deck = [4611686018427387904, 4611686018427387904], field = [0, 0],
      hands = [(''player0'', [0, 0]), (''player1'', [0, 0])],
      scoreboard = [(''player0'', 0), (''player1'', 0)] \<rparr>"
  by (simp add: g_wide_def Kariba_init_def dict_from_keys_def dict_set_def np_zeros_def
      eval_nat_numeral)

lemma n_to_draw_g_chase: "n_to_draw g_chase = Inr 4"
  by (simp add: n_to_draw_def g_chase_def whose_turn_def py_get_def dict_get_def np_sum_def
      i64_def fits64_def)

lemma n_to_draw_g_no_species: "n_to_draw g_no_species = Inr 5"
  by (simp add: g_no_species_eq n_to_draw_def whose_turn_def py_get_def dict_get_def np_sum_def
      i64_def fits64_def)

lemma denominator_g_no_species:
  "denominator g_no_species (np_zeros (n_species g_no_species)) = Inr 0"
  by (simp add: g_no_species_eq denominator_def np_sub_def np_binop_def np_zeros_def np_sum_def
      i64_def)

text \<open>
  The 64-bit sum at work: each of the two counts of the deck of \<open>g_wide\<close> is a 64-bit value,
  the sum of the deck wraps around to \<open>-2\<^sup>6\<^sup>3\<close>, and the draw takes no card although the hand
  is empty and the deck is not.
\<close>

lemma wide_deck_draws_nothing:
  "np_sum (deck g_wide) = - (2 ^ 63) \<and> n_to_draw g_wide = Inr (- (2 ^ 63)) \<and>
   random_card_draw rs g_wide = Inr (\<lparr>kind = ''deck_draw'', who = ''player0'', cards = [0, 0]\<rparr>, rs)"
proof -
  have s: "np_sum (deck g_wide) = - (2 ^ 63)"
    by (simp add: g_wide_eq np_sum_def i64_def)
  have n: "n_to_draw g_wide = Inr (- (2 ^ 63))"
    by (simp add: g_wide_eq n_to_draw_def whose_turn_def py_get_def dict_get_def np_sum_def
        i64_def fits64_def)
  have "random_card_draw rs g_wide =
      Inr (\<lparr>kind = ''deck_draw'', who = ''player0'', cards = [0, 0]\<rparr>, rs)"
    unfolding random_card_draw_def n
    by (simp add: g_wide_eq whose_turn_def py_get_def np_zeros_def eval_nat_numeral)
  with s n show ?thesis by simp
qed

text \<open>
  Claim C8, amended. The claim's precondition on the hand size is neither needed nor
  sufficient; what the statement needs is that the deck has \<open>n_species\<close> entries. In such a
  state, whatever the hand, step \<open>j < n_to_draw\<close> of the sampling loop of \<^verbatim>\<open>random_card_draw\<close>
  (from any cards \<open>drawn\<close> that \<open>j\<close> executions of the loop body can have produced) divides
  by the denominator \<open>sum(deck) - j\<close>, which is strictly positive; the sums are numpy's
  64-bit sums.
\<close>

theorem denominator_positive:
  assumes "length (deck g) = n_species g" and "n_to_draw g = Inr n"
    and "draw_state g j drawn" and "int j < n"
  shows "denominator g drawn = Inr (np_sum (deck g) - int j) \<and> 0 < np_sum (deck g) - int j"
  using denominator_at_step[OF assms] by simp

theorem denominator_positive_witness:
  "denominator g_chase [1, 0, 0, 0] = Inr 3"
proof -
  have 1: "length (deck g_chase) = n_species g_chase" by (simp add: g_chase_def)
  have s: "draw_step [0] g_chase (np_zeros (n_species g_chase)) = Inr ([1, 0, 0, 0], [])"
    by (simp add: draw_step_def denominator_def random_choice_p_def next_random_def g_chase_def
        np_sub_def np_binop_def np_iadd_def np_inplace_def np_sum_def i64_def np_zeros_def
        np_nonzero_def one_hot_def eval_nat_numeral)
  have 3: "draw_state g_chase (Suc 0) [1, 0, 0, 0]"
    by (rule draw_next[OF draw_start s])
  have 4: "int (Suc 0) < 4" by simp
  have 5: "np_sum (deck g_chase) = 4" by (simp add: g_chase_def np_sum_def i64_def)
  show ?thesis using denominator_positive[OF 1 n_to_draw_g_chase 3 4] unfolding 5 by simp
qed

text \<open>
  The claim as worded fails where the deck does not have \<open>n_species\<close> entries. In the state
  that \<^verbatim>\<open>Kariba(deck=np.array([5]), n_species=0)\<close> builds, the hand of the player on turn is
  empty, so its size does not exceed the capacity 5; five cards are to be drawn; and the
  first sampling step divides by the sum of the empty vector \<open>deck - cards\<close>, which is zero.
\<close>

theorem zero_denominator_counterexample:
  "length (deck g_no_species) \<noteq> n_species g_no_species \<and>
   whose_turn g_no_species = Inr ''player0'' \<and>
   dict_get (hands g_no_species) ''player0'' = Inr [] \<and>
   np_sum [] \<le> max_n_hand g_no_species \<and>
   n_to_draw g_no_species = Inr 5 \<and>
   draw_state g_no_species 0 (np_zeros (n_species g_no_species)) \<and>
   denominator g_no_species (np_zeros (n_species g_no_species)) = Inr 0"
proof -
  have "length (deck g_no_species) \<noteq> n_species g_no_species"
    "whose_turn g_no_species = Inr ''player0''"
    "dict_get (hands g_no_species) ''player0'' = Inr []"
    "np_sum [] \<le> max_n_hand g_no_species"
    by (simp_all add: g_no_species_eq whose_turn_def py_get_def dict_get_def np_sum_def i64_def)
  moreover have "draw_state g_no_species 0 (np_zeros (n_species g_no_species))"
    by (rule draw_start)
  ultimately show ?thesis using n_to_draw_g_no_species denominator_g_no_species by simp
qed

text \<open>
  Claim C7, amended to what the code does. The number of cards to draw is
  \<open>min(max_n_hand - hand size, sum(deck))\<close> in 64-bit arithmetic. In a state in which the
  deck has \<open>n_species\<close> entries, none of them negative, and holds fewer than \<open>2\<^sup>6\<^sup>3\<close> cards,
  \<^verbatim>\<open>max_n_hand\<close> is a 64-bit value, and the turn index names a player who has a hand,
  \<^verbatim>\<open>random_card_draw\<close> succeeds: it returns a deck-draw event
  for the player on turn whose cards number that minimum (none when it is negative), no
  count negative and each species drawn at most as often as the deck holds it. The program
  defines no exception of its own for a depleted pool: a sampling step whose denominator
  is zero raises numpy's ValueError, and with it the loop that executes the step.
\<close>

theorem random_card_draw_succeeds:
  "(whose_turn g = Inr p \<and> dict_get (hands g) p = Inr hand \<and> fits64 (max_n_hand g) \<longrightarrow>
      n_to_draw g = Inr (min (i64 (max_n_hand g - np_sum hand)) (np_sum (deck g)))) \<and>
   (length (deck g) = n_species g \<and> nonneg_deck g \<and> sum_list (deck g) < 2 ^ 63 \<and>
    fits64 (max_n_hand g) \<and> whose_turn g = Inr p \<and> dict_get (hands g) p = Inr hand \<longrightarrow>
      np_sum (deck g) = sum_list (deck g) \<and>
      (\<exists>drawn rs'.
         random_card_draw rs g = Inr (\<lparr>kind = ''deck_draw'', who = p, cards = drawn\<rparr>, rs') \<and>
         sum_list drawn = max 0 (min (i64 (max_n_hand g - np_sum hand)) (sum_list (deck g))) \<and>
         list_all (\<lambda>x. 0 \<le> x) drawn \<and> vec_le drawn (deck g))) \<and>
   (denominator g drawn0 = Inr 0 \<longrightarrow>
      draw_step rs g drawn0 = Inl ValueError \<and> draw_loop (Suc k) rs g drawn0 = Inl ValueError)"
proof (intro conjI impI)
  assume "whose_turn g = Inr p \<and> dict_get (hands g) p = Inr hand \<and> fits64 (max_n_hand g)"
  then show "n_to_draw g = Inr (min (i64 (max_n_hand g - np_sum hand)) (np_sum (deck g)))"
    using n_to_draw_eq[of g p hand] by blast
next
  assume a: "length (deck g) = n_species g \<and> nonneg_deck g \<and> sum_list (deck g) < 2 ^ 63 \<and>
    fits64 (max_n_hand g) \<and> whose_turn g = Inr p \<and> dict_get (hands g) p = Inr hand"
  then have "0 \<le> sum_list (deck g)"
    unfolding nonneg_deck_def by (intro sum_list_nonneg) (simp add: list_all_iff)
  then have "fits64 (sum_list (deck g))" using a by (intro fits64_nonneg) simp_all
  then show "np_sum (deck g) = sum_list (deck g)" by (rule np_sum_id)
  from a show "\<exists>drawn rs'.
         random_card_draw rs g = Inr (\<lparr>kind = ''deck_draw'', who = p, cards = drawn\<rparr>, rs') \<and>
         sum_list drawn = max 0 (min (i64 (max_n_hand g - np_sum hand)) (sum_list (deck g))) \<and>
         list_all (\<lambda>x. 0 \<le> x) drawn \<and> vec_le drawn (deck g)"
    using random_card_draw_ok[of g p hand rs] by blast
next
  assume z: "denominator g drawn0 = Inr 0"
  show s: "draw_step rs g drawn0 = Inl ValueError" by (rule zero_denominator_step[OF z])
  show "draw_loop (Suc k) rs g drawn0 = Inl ValueError" by (simp add: s)
qed

theorem random_card_draw_succeeds_witness:
  "n_to_draw g_chase = Inr 4 \<and>
   (\<exists>drawn rs'.
     random_card_draw [0, 0] g_chase =
       Inr (\<lparr>kind = ''deck_draw'', who = ''player0'', cards = drawn\<rparr>, rs') \<and>
     sum_list drawn = 4 \<and> list_all (\<lambda>x. 0 \<le> x) drawn \<and> vec_le drawn (deck g_chase)) \<and>
   draw_step [] g_no_species (np_zeros (n_species g_no_species)) = Inl ValueError \<and>
   draw_loop (Suc 4) [] g_no_species (np_zeros (n_species g_no_species)) = Inl ValueError"
proof -
  have h: "length (deck g_chase) = n_species g_chase" "nonneg_deck g_chase"
    "sum_list (deck g_chase) < 2 ^ 63"
    "fits64 (max_n_hand g_chase)" "whose_turn g_chase = Inr ''player0''"
    "dict_get (hands g_chase) ''player0'' = Inr [0, 0, 1, 0]"
    by (simp_all add: kariba_wf_def nonneg_deck_def whose_turn_def py_get_def dict_get_def
        fits64_def g_chase_def)
  have 5: "max 0 (min (i64 (max_n_hand g_chase - np_sum [0, 0, 1, 0])) (sum_list (deck g_chase))) = 4"
    "min (i64 (max_n_hand g_chase - np_sum [0, 0, 1, 0])) (np_sum (deck g_chase)) = 4"
    by (simp_all add: g_chase_def np_sum_def i64_def)
  note t1 = random_card_draw_succeeds[of g_chase "''player0''" "[0, 0, 1, 0]" "[0, 0]"]
  note t2 = random_card_draw_succeeds[of g_no_species _ _ "[]" "np_zeros (n_species g_no_species)" 4]
  from t1 h have "n_to_draw g_chase = Inr 4" unfolding 5 by blast
  moreover from t1 h have "\<exists>drawn rs'.
     random_card_draw [0, 0] g_chase =
       Inr (\<lparr>kind = ''deck_draw'', who = ''player0'', cards = drawn\<rparr>, rs') \<and>
     sum_list drawn = 4 \<and> list_all (\<lambda>x. 0 \<le> x) drawn \<and> vec_le drawn (deck g_chase)"
    unfolding 5 by blast
  moreover from t2 denominator_g_no_species have
    "draw_step [] g_no_species (np_zeros (n_species g_no_species)) = Inl ValueError \<and>
     draw_loop (Suc 4) [] g_no_species (np_zeros (n_species g_no_species)) = Inl ValueError"
    by blast
  ultimately show ?thesis by blast
qed

text \<open>
  The claim as the specification words it asks for an explicit ExhaustedDeckError when the
  denominator is zero. The program has no such exception. On the state that
  \<^verbatim>\<open>Kariba(deck=np.array([5]), n_species=0)\<close> builds, five cards are to be drawn, \<open>deck - cards\<close>
  is the empty vector, its sum is zero, and the draw ends with numpy's ValueError.
\<close>

theorem exhausted_pool_counterexample:
  "n_to_draw g_no_species = Inr 5 \<and>
   denominator g_no_species (np_zeros (n_species g_no_species)) = Inr 0 \<and>
   random_card_draw [] g_no_species = Inl ValueError"
proof -
  have s: "draw_step [] g_no_species [] = Inl ValueError"
    using denominator_g_no_species
    by (simp add: g_no_species_eq draw_step_def np_sub_def np_binop_def np_zeros_def
        random_choice_p_def)
  have "random_card_draw [] g_no_species = Inl ValueError"
    using s by (simp add: random_card_draw_def n_to_draw_g_no_species eval_nat_numeral)
      (simp add: g_no_species_eq np_zeros_def)
  with n_to_draw_g_no_species denominator_g_no_species show ?thesis by simp
qed

section \<open>Nodes, trees and the coordinator\<close>

lemma is_equivalent_node_iff:
  "is_equivalent_node a b \<longleftrightarrow>
     node_player a = node_player b \<and> node_hand a = node_hand b \<and>
     node_field a = node_field b \<and> node_jungle a = node_jungle b"
  by (simp add: is_equivalent_node_def)

lemmas node_eval =
  Node_init_def jungle_def whose_turn_def py_get_def dict_get_def np_add_def np_binop_def
  is_equivalent_node_def Let_def

text \<open>
  Claim C3 fails on the code. The equivalence test never reads the flag of the second
  node: the node that player0's tree holds after player0 played a card (a post-action node)
  and the candidate the same tree builds for the opponent's following deck draw (a neutral
  node with the same hand, field and jungle) are found equivalent.
\<close>

theorem equivalence_ignores_flag:
  "rbind (Node_init g_after_action ''player0''
            (Some \<lparr>kind = ''action'', who = ''player0'', cards = [1, 0]\<rparr>) (Some 1)) (\<lambda>node_a.
   rbind (Node_init g_after_draw ''player0''
            (Some \<lparr>kind = ''deck_draw'', who = ''player1'', cards = [1, 1]\<rparr>) (Some 2)) (\<lambda>node_b.
     Inr (is_post_action_node node_a, is_post_action_node node_b,
          is_equivalent_node node_a node_b))) = Inr (True, False, True)"
  by (simp add: g_after_action_def g_after_draw_def node_eval)

lemma Node_init_inv: "Node_init g p (Some ev) parent = Inr c \<Longrightarrow> node_inv c"
  by (auto simp: Node_init_def rbind_eq_Inr node_inv_def Let_def)

lemma first_index_least:
  assumes "\<exists>x\<in>set xs. P x"
  shows "first_index P xs < length xs \<and> P (xs ! first_index P xs) \<and>
         (\<forall>j<first_index P xs. \<not> P (xs ! j))"
  using assms
proof (induction xs)
  case Nil then show ?case by simp
next
  case (Cons x xs)
  show ?case
  proof (cases "P x")
    case True then show ?thesis by simp
  next
    case False
    with Cons.prems have "\<exists>x\<in>set xs. P x" by simp
    from Cons.IH[OF this] False show ?thesis by (auto simp: less_Suc_eq_0_disj)
  qed
qed

lemma foldr_max_hd: "xs \<noteq> [] \<Longrightarrow> foldr max xs (hd xs) = Max (set (xs::int list))"
proof -
  assume "xs \<noteq> []"
  then have "insert (hd xs) (set xs) = set xs" by (cases xs) auto
  then show ?thesis by (simp add: foldr_max_Max)
qed

lemma np_argmax_Inr:
  assumes "xs \<noteq> []"
  shows "np_argmax xs = Inr i \<longleftrightarrow>
     i < length xs \<and> (\<forall>j<length xs. xs ! j \<le> xs ! i) \<and> (\<forall>j<i. xs ! j < xs ! i)"
proof -
  let ?m = "Max (set xs)"
  let ?k = "first_index (\<lambda>x. x = ?m) xs"
  have a: "np_argmax xs = Inr ?k" using assms by (simp add: np_argmax_def foldr_max_hd)
  have "?m \<in> set xs" using assms by simp
  then have "\<exists>x\<in>set xs. x = ?m" by blast
  from first_index_least[OF this]
  have k: "?k < length xs" "xs ! ?k = ?m" "\<forall>j<?k. xs ! j \<noteq> ?m" by auto
  have le: "\<forall>j<length xs. xs ! j \<le> ?m" by simp
  have lt: "\<forall>j<?k. xs ! j < ?m"
  proof (intro allI impI)
    fix j assume "j < ?k"
    then have "xs ! j \<noteq> ?m" "xs ! j \<le> ?m" using k le by auto
    then show "xs ! j < ?m" by simp
  qed
  show ?thesis
  proof
    assume "np_argmax xs = Inr i"
    then have "i = ?k" using a by simp
    then show "i < length xs \<and> (\<forall>j<length xs. xs ! j \<le> xs ! i) \<and> (\<forall>j<i. xs ! j < xs ! i)"
      using k le lt by simp
  next
    assume r: "i < length xs \<and> (\<forall>j<length xs. xs ! j \<le> xs ! i) \<and> (\<forall>j<i. xs ! j < xs ! i)"
    then have "xs ! i = ?m" by (intro Max_eqI[symmetric]) (auto simp: in_set_conv_nth)
    have "\<not> i < ?k" using k(3) \<open>xs ! i = ?m\<close> by blast
    moreover have "\<not> ?k < i" using r k(2) \<open>xs ! i = ?m\<close> by auto
    ultimately have "i = ?k" by simp
    then show "np_argmax xs = Inr i" using a by simp
  qed
qed

lemma select_best_action_eq:
  "select_best_action t =
     rbind (np_argmax (map node_n (cursor_children t))) (\<lambda>i.
       case node_action (cursor_children t ! i) of None \<Rightarrow> Inl AttributeError | Some a \<Rightarrow> Inr a)"
proof (cases "np_argmax (map node_n (cursor_children t))")
  case (Inl e)
  then show ?thesis by (simp add: select_best_action_def cursor_children_def Let_def comp_def)
next
  case (Inr i)
  have ne: "map node_n (cursor_children t) \<noteq> []" using Inr by (auto simp: np_argmax_def)
  from Inr have "i < length (cursor_children t)" using np_argmax_Inr[OF ne] by simp
  then show ?thesis using Inr
    by (simp add: select_best_action_def cursor_children_def Let_def comp_def)
qed

text \<open>
  Claim C9. \<^verbatim>\<open>select_action(return_best_action=True)\<close> works on the children of the current
  node (the cursor, wherever it stands). For nodes as \<^verbatim>\<open>Node.__init__\<close> builds them (the action
  attribute is present exactly on post-action nodes), it returns an action \<open>a\<close> exactly when
  the cursor has a child, and the first child of maximal visit count is a post-action node
  whose action is \<open>a\<close>. Without children it raises ValueError; when every child is a neutral
  node it raises AttributeError.
\<close>

theorem select_best_action_defined:
  assumes "list_all node_inv (cursor_children t)"
  shows "(select_best_action t = Inr a \<longleftrightarrow>
           (\<exists>i<length (cursor_children t).
              (\<forall>j<length (cursor_children t).
                 node_n (cursor_children t ! j) \<le> node_n (cursor_children t ! i)) \<and>
              (\<forall>j<i. node_n (cursor_children t ! j) < node_n (cursor_children t ! i)) \<and>
              is_post_action_node (cursor_children t ! i) \<and>
              node_action (cursor_children t ! i) = Some a)) \<and>
         (cursor_children t = [] \<longrightarrow> select_best_action t = Inl ValueError) \<and>
         (cursor_children t \<noteq> [] \<and> list_all (\<lambda>c. \<not> is_post_action_node c) (cursor_children t)
            \<longrightarrow> select_best_action t = Inl AttributeError)"
proof (cases "cursor_children t = []")
  case True
  then show ?thesis by (simp add: select_best_action_eq np_argmax_def)
next
  case False
  let ?ks = "cursor_children t"
  have ne: "map node_n ?ks \<noteq> []" using False by simp
  obtain k where k: "np_argmax (map node_n ?ks) = Inr k"
    using ne by (auto simp: np_argmax_def)
  note ch = np_argmax_Inr[OF ne]
  have kl: "k < length ?ks" using ch[of k] k by simp
  have inv: "\<And>i. i < length ?ks \<Longrightarrow> (node_action (?ks ! i) = None) = (\<not> is_post_action_node (?ks ! i))"
    using assms by (simp add: list_all_length node_inv_def)
  have 1: "select_best_action t = Inr a \<longleftrightarrow> node_action (?ks ! k) = Some a"
    by (simp add: select_best_action_eq k split: option.splits)
  have 2: "(\<exists>i<length ?ks. (\<forall>j<length ?ks. node_n (?ks ! j) \<le> node_n (?ks ! i)) \<and>
              (\<forall>j<i. node_n (?ks ! j) < node_n (?ks ! i)) \<and>
              is_post_action_node (?ks ! i) \<and> node_action (?ks ! i) = Some a)
          \<longleftrightarrow> node_action (?ks ! k) = Some a"
  proof
    assume "\<exists>i<length ?ks. (\<forall>j<length ?ks. node_n (?ks ! j) \<le> node_n (?ks ! i)) \<and>
              (\<forall>j<i. node_n (?ks ! j) < node_n (?ks ! i)) \<and>
              is_post_action_node (?ks ! i) \<and> node_action (?ks ! i) = Some a"
    then obtain i where i: "i < length ?ks" "\<forall>j<length ?ks. node_n (?ks ! j) \<le> node_n (?ks ! i)"
      "\<forall>j<i. node_n (?ks ! j) < node_n (?ks ! i)" "node_action (?ks ! i) = Some a" by blast
    have "np_argmax (map node_n ?ks) = Inr i"
      using i(1,2,3) by (subst ch) simp
    with k have "i = k" by simp
    with i(4) show "node_action (?ks ! k) = Some a" by simp
  next
    assume a: "node_action (?ks ! k) = Some a"
    then have "is_post_action_node (?ks ! k)" using inv[OF kl] by auto
    moreover have "(\<forall>j<length ?ks. node_n (?ks ! j) \<le> node_n (?ks ! k)) \<and>
       (\<forall>j<k. node_n (?ks ! j) < node_n (?ks ! k))"
      using ch[of k] k kl by simp
    ultimately show "\<exists>i<length ?ks. (\<forall>j<length ?ks. node_n (?ks ! j) \<le> node_n (?ks ! i)) \<and>
              (\<forall>j<i. node_n (?ks ! j) < node_n (?ks ! i)) \<and>
              is_post_action_node (?ks ! i) \<and> node_action (?ks ! i) = Some a"
      using kl a by blast
  qed
  have 3: "list_all (\<lambda>c. \<not> is_post_action_node c) ?ks \<Longrightarrow> select_best_action t = Inl AttributeError"
  proof -
    assume "list_all (\<lambda>c. \<not> is_post_action_node c) ?ks"
    then have "\<not> is_post_action_node (?ks ! k)" using kl by (simp add: list_all_length)
    then have "node_action (?ks ! k) = None" using inv[OF kl] by simp
    then show ?thesis by (simp add: select_best_action_eq k)
  qed
  show ?thesis using False 1 2 3 by simp
qed

lemma shape0: "tree_shape (sim_after 0) = [(''player0'', 1, 0, False), (''player1'', 1, 0, False)]"
  by code_simp

lemma shape_end0: "tree_shape (sim_game_end 0) = [(''player0'', 2, 1, True), (''player1'', 2, 1, True)]"
  by code_simp

lemma shape2: "tree_shape (sim_after 2) = [(''player0'', 3, 0, False), (''player1'', 2, 0, False)]"
  by code_simp

lemma shape_end2: "tree_shape (sim_game_end 2) = [(''player0'', 3, 2, False), (''player1'', 2, 1, False)]"
  by code_simp

lemma play2: "play_game 5 [] (sim_after 2) = Some (Inr (sim_game_end 2, []))"
  by code_simp

text \<open>
  Claim C6. \<^verbatim>\<open>reset_game\<close> makes the live game the reset snapshot and keeps the snapshot;
  it keeps the players and the order of the trees, and for every tree it puts the cursor on
  the root and clears the rollout flag while the list of nodes, with every visit count \<open>n\<close>
  and win count \<open>w\<close> in it, the root and the owner stay as they were.
\<close>

theorem reset_game_frame:
  "game (reset_game sim) = reset_state sim \<and>
   reset_state (reset_game sim) = reset_state sim \<and>
   map fst (tree_dict (reset_game sim)) = map fst (tree_dict sim) \<and>
   (\<forall>i<length (tree_dict sim).
      current_node (snd (tree_dict (reset_game sim) ! i)) = root_node (snd (tree_dict sim ! i)) \<and>
      \<not> is_on_rollout_policy (snd (tree_dict (reset_game sim) ! i)) \<and>
      nodes (snd (tree_dict (reset_game sim) ! i)) = nodes (snd (tree_dict sim ! i)) \<and>
      root_node (snd (tree_dict (reset_game sim) ! i)) = root_node (snd (tree_dict sim ! i)) \<and>
      tree_player (snd (tree_dict (reset_game sim) ! i)) = tree_player (snd (tree_dict sim ! i)))"
proof -
  have "map fst (tree_dict (reset_game sim)) = map fst (tree_dict sim)"
    by (simp add: reset_game_def comp_def case_prod_beta)
  moreover have "\<And>i. i < length (tree_dict sim) \<Longrightarrow>
      snd (tree_dict (reset_game sim) ! i) =
        (snd (tree_dict sim ! i))\<lparr>current_node := root_node (snd (tree_dict sim ! i)),
                                   is_on_rollout_policy := False\<rparr>"
    by (simp add: reset_game_def case_prod_beta)
  ultimately show ?thesis by (simp add: reset_game_def)
qed

lemma tree_grows_refl: "tree_grows t t"
  by (simp add: tree_grows_def)

lemma tree_grows_trans: "tree_grows a b \<Longrightarrow> tree_grows b c \<Longrightarrow> tree_grows a c"
  by (auto simp: tree_grows_def split: if_splits)

lemma trees_grow_refl: "trees_grow d d"
  by (simp add: trees_grow_def list_all2_refl tree_grows_refl)

lemma trees_grow_nth:
  "trees_grow a b \<longleftrightarrow> length a = length b \<and>
     (\<forall>i<length a. fst (b ! i) = fst (a ! i) \<and> tree_grows (snd (a ! i)) (snd (b ! i)))"
  by (simp add: trees_grow_def list_all2_conv_all_nth)

lemma trees_grow_trans:
  assumes "trees_grow a b" "trees_grow b c"
  shows "trees_grow a c"
proof -
  have l: "length a = length b" "length b = length c"
    using assms by (simp_all add: trees_grow_nth)
  have "\<And>i. i < length a \<Longrightarrow> fst (c ! i) = fst (a ! i) \<and> tree_grows (snd (a ! i)) (snd (c ! i))"
  proof -
    fix i assume i: "i < length a"
    then have "fst (b ! i) = fst (a ! i)" "tree_grows (snd (a ! i)) (snd (b ! i))"
      using assms(1) by (simp_all add: trees_grow_nth)
    moreover have "fst (c ! i) = fst (b ! i)" "tree_grows (snd (b ! i)) (snd (c ! i))"
      using assms(2) i l by (simp_all add: trees_grow_nth)
    ultimately show "fst (c ! i) = fst (a ! i) \<and> tree_grows (snd (a ! i)) (snd (c ! i))"
      by (auto intro: tree_grows_trans)
  qed
  then show ?thesis using l by (simp add: trees_grow_nth)
qed

lemma tree_apply_event_rollout: "is_on_rollout_policy t \<Longrightarrow> tree_apply_event ev g t = Inr t"
  by (simp add: tree_apply_event_def)

lemma tree_apply_event_cases:
  assumes "\<not> is_on_rollout_policy t" "tree_apply_event ev g t = Inr t'"
  shows "(\<exists>k. t' = t\<lparr>current_node := k\<rparr>) \<or>
         (length (nodes t') = length (nodes t) + 1 \<and> is_on_rollout_policy t' \<and>
          current_node t' = length (nodes t) \<and> root_node t' = root_node t \<and>
          tree_player t' = tree_player t)"
proof -
  from assms have "rbind (Node_init g (tree_player t) (Some ev) (Some (current_node t))) (\<lambda>c.
       (let cur = nodes t ! current_node t
         in case find (\<lambda>i. is_equivalent_node (nodes t ! i) c) (current_node t # node_children cur) of
              Some existing \<Rightarrow> Inr (t\<lparr>current_node := existing\<rparr>)
            | None \<Rightarrow> Inr (t\<lparr>nodes := (nodes t)[current_node t :=
                                     cur\<lparr>node_children := node_children cur @ [length (nodes t)]\<rparr>] @ [c],
                         current_node := length (nodes t), is_on_rollout_policy := True\<rparr>))) = Inr t'"
    by (simp add: tree_apply_event_def del: find.simps)
  then show ?thesis
  proof (rule rbindE)
    fix c
    assume r: "(let cur = nodes t ! current_node t
         in case find (\<lambda>i. is_equivalent_node (nodes t ! i) c) (current_node t # node_children cur) of
              Some existing \<Rightarrow> Inr (t\<lparr>current_node := existing\<rparr>)
            | None \<Rightarrow> Inr (t\<lparr>nodes := (nodes t)[current_node t :=
                                     cur\<lparr>node_children := node_children cur @ [length (nodes t)]\<rparr>] @ [c],
                         current_node := length (nodes t), is_on_rollout_policy := True\<rparr>)) = Inr t'"
    show ?thesis
    proof (cases "find (\<lambda>i. is_equivalent_node (nodes t ! i) c)
                  (current_node t # node_children (nodes t ! current_node t))")
      case None
      with r show ?thesis by (auto simp: Let_def simp del: find.simps)
    next
      case (Some k)
      with r have "t' = t\<lparr>current_node := k\<rparr>" by (simp add: Let_def del: find.simps)
      then show ?thesis by blast
    qed
  qed
qed

lemma tree_apply_event_grows: "tree_apply_event ev g t = Inr t' \<Longrightarrow> tree_grows t t'"
proof (cases "is_on_rollout_policy t")
  case True
  assume "tree_apply_event ev g t = Inr t'"
  with True show ?thesis by (simp add: tree_apply_event_rollout tree_grows_refl)
next
  case False
  assume "tree_apply_event ev g t = Inr t'"
  from tree_apply_event_cases[OF False this] False show ?thesis
    by (auto simp: tree_grows_def)
qed

lemma trees_apply_event_grow: "trees_apply_event ev g d = Inr d' \<Longrightarrow> trees_grow d d'"
proof (induction d arbitrary: d')
  case Nil
  then show ?case by (simp add: trees_grow_def)
next
  case (Cons pt d)
  obtain p t where pt: "pt = (p, t)" by (cases pt)
  from Cons.prems obtain t1 d1 where 1: "tree_apply_event ev g t = Inr t1"
    and 2: "trees_apply_event ev g d = Inr d1" and 3: "d' = (p, t1) # d1"
    by (auto simp: pt rbind_eq_Inr)
  from Cons.IH[OF 2] tree_apply_event_grows[OF 1] show ?case
    by (simp add: trees_grow_def pt 3)
qed

lemma select_action_grows: "select_action g rs t = Inr (a, t', rs') \<Longrightarrow> tree_grows t t'"
  by (auto simp: select_action_def rbind_eq_Inr Let_def tree_grows_def
      split: if_splits prod.splits option.splits)

lemma dict_set_grows:
  "map_of d p = Some t \<Longrightarrow> tree_grows t t' \<Longrightarrow> trees_grow d (dict_set d p t')"
proof (induction d)
  case Nil then show ?case by simp
next
  case (Cons x d)
  show ?case
  proof (cases "fst x = p")
    case True
    with Cons.prems have "snd x = t" by (cases x) simp
    with True Cons.prems(2) show ?thesis
      using trees_grow_refl[of d] by (simp add: trees_grow_def dict_set_def)
  next
    case False
    with Cons.prems have "map_of d p = Some t" by (cases x) auto
    from Cons.IH[OF this Cons.prems(2)] False show ?thesis
      by (simp add: trees_grow_def dict_set_def tree_grows_refl)
  qed
qed

lemma sim_apply_event_grow: "sim_apply_event ev sim = Inr sim' \<Longrightarrow> trees_grow (tree_dict sim) (tree_dict sim')"
  by (auto simp: sim_apply_event_def rbind_eq_Inr dest: trees_apply_event_grow)

lemma sim_select_action_grow:
  "sim_select_action rs sim = Inr (a, sim', rs') \<Longrightarrow> trees_grow (tree_dict sim) (tree_dict sim')"
  by (auto simp: sim_select_action_def rbind_eq_Inr dict_get_Inr
      dest!: select_action_grows intro: dict_set_grows)

lemma sim_next_turn_trees: "sim_next_turn sim = Inr sim' \<Longrightarrow> tree_dict sim' = tree_dict sim"
  by (auto simp: sim_next_turn_def rbind_eq_Inr)

lemma play_turn_grow:
  assumes "play_turn rs sim = Inr (sim', rs')"
  shows "trees_grow (tree_dict sim) (tree_dict sim')"
proof -
  from assms obtain dr where 1: "sim_random_card_draw rs sim = Inr dr"
    and r1: "(case dr of (draw, rs1) \<Rightarrow>
       rbind (sim_apply_event draw sim) (\<lambda>sim1.
       rbind (sim_select_action rs1 sim1) (\<lambda>(act, sim2, rs2).
       rbind (sim_apply_event act sim2) (\<lambda>sim3.
       rbind (sim_next_turn sim3) (\<lambda>sim4. Inr (sim4, rs2)))))) = Inr (sim', rs')"
    unfolding play_turn_def by (rule rbindE)
  obtain draw rs1 where dr: "dr = (draw, rs1)" by (cases dr)
  from r1 obtain sim1 where 2: "sim_apply_event draw sim = Inr sim1"
    and r2: "rbind (sim_select_action rs1 sim1) (\<lambda>(act, sim2, rs2).
       rbind (sim_apply_event act sim2) (\<lambda>sim3.
       rbind (sim_next_turn sim3) (\<lambda>sim4. Inr (sim4, rs2)))) = Inr (sim', rs')"
    unfolding dr prod.case by (rule rbindE)
  from r2 obtain sel where 3: "sim_select_action rs1 sim1 = Inr sel"
    and r3: "(case sel of (act, sim2, rs2) \<Rightarrow>
       rbind (sim_apply_event act sim2) (\<lambda>sim3.
       rbind (sim_next_turn sim3) (\<lambda>sim4. Inr (sim4, rs2)))) = Inr (sim', rs')"
    by (rule rbindE)
  obtain act sim2 rs2 where sel: "sel = (act, sim2, rs2)" by (cases sel)
  from r3 obtain sim3 where 4: "sim_apply_event act sim2 = Inr sim3"
    and r4: "rbind (sim_next_turn sim3) (\<lambda>sim4. Inr (sim4, rs2)) = Inr (sim', rs')"
    unfolding sel prod.case by (rule rbindE)
  from r4 have 5: "sim_next_turn sim3 = Inr sim'" by (auto simp: rbind_eq_Inr)
  have a: "trees_grow (tree_dict sim) (tree_dict sim1)" by (rule sim_apply_event_grow[OF 2])
  have b: "trees_grow (tree_dict sim1) (tree_dict sim2)"
    by (rule sim_select_action_grow[OF 3[unfolded sel]])
  have c: "trees_grow (tree_dict sim2) (tree_dict sim3)" by (rule sim_apply_event_grow[OF 4])
  from trees_grow_trans[OF trees_grow_trans[OF a b] c] sim_next_turn_trees[OF 5]
  show ?thesis by simp
qed

lemma play_game_grow:
  "play_game fuel rs sim = Some (Inr (sim', rs')) \<Longrightarrow> trees_grow (tree_dict sim) (tree_dict sim')"
proof (induction fuel arbitrary: rs sim)
  case 0
  then show ?case by simp
next
  case (Suc fuel)
  show ?case
  proof (cases "is_final (game sim)")
    case (Inl e)
    with Suc.prems show ?thesis by simp
  next
    case (Inr fin)
    show ?thesis
    proof (cases fin)
      case True
      with Inr Suc.prems show ?thesis by (simp add: trees_grow_refl)
    next
      case False
      show ?thesis
      proof (cases "play_turn rs sim")
        case (Inl e)
        with Inr False Suc.prems show ?thesis by simp
      next
        case (Inr sr)
        obtain sim1 rs1 where sr: "sr = (sim1, rs1)" by (cases sr)
        from Suc.prems \<open>is_final (game sim) = Inr fin\<close> False Inr sr
        have "play_game fuel rs1 sim1 = Some (Inr (sim', rs'))" by simp
        from Suc.IH[OF this] play_turn_grow[OF Inr[unfolded sr]]
        show ?thesis by (rule trees_grow_trans[rotated])
      qed
    qed
  qed
qed

lemma find_first:
  "i < length xs \<Longrightarrow> P (xs ! i) \<Longrightarrow> list_all (\<lambda>k. \<not> P k) (take i xs) \<Longrightarrow>
   find P xs = Some (xs ! i)"
proof (induction xs arbitrary: i)
  case Nil
  then show ?case by simp
next
  case (Cons x xs)
  then show ?case by (cases i) auto
qed

lemma find_none: "list_all (\<lambda>k. \<not> P k) xs \<Longrightarrow> find P xs = None"
  by (simp add: find_None_iff list_all_iff)

lemma tree_apply_event_match:
  assumes "\<not> is_on_rollout_policy t"
    and "Node_init g (tree_player t) (Some ev) (Some (current_node t)) = Inr c"
    and "i < length (existing_nodes t)"
    and "is_equivalent_node (nodes t ! (existing_nodes t ! i)) c"
    and "list_all (\<lambda>k. \<not> is_equivalent_node (nodes t ! k) c) (take i (existing_nodes t))"
  shows "tree_apply_event ev g t = Inr (t\<lparr>current_node := existing_nodes t ! i\<rparr>)"
proof -
  have "find (\<lambda>k. is_equivalent_node (nodes t ! k) c) (existing_nodes t)
      = Some (existing_nodes t ! i)"
    using assms(3,4,5) by (rule find_first)
  then show ?thesis
    using assms(1,2) by (simp add: tree_apply_event_def existing_nodes_def Let_def del: find.simps)
qed

lemma tree_apply_event_append:
  assumes "\<not> is_on_rollout_policy t"
    and "Node_init g (tree_player t) (Some ev) (Some (current_node t)) = Inr c"
    and "list_all (\<lambda>k. \<not> is_equivalent_node (nodes t ! k) c) (existing_nodes t)"
  shows "tree_apply_event ev g t = Inr (append_child t c)"
proof -
  have "find (\<lambda>k. is_equivalent_node (nodes t ! k) c) (existing_nodes t) = None"
    using assms(3) by (rule find_none)
  then show ?thesis
    using assms(1,2)
    by (simp add: tree_apply_event_def existing_nodes_def append_child_def Let_def del: find.simps)
qed

lemma select_action_frame:
  assumes "select_action g rs t = Inr (a, t', rs')"
  shows "length (nodes t') = length (nodes t) \<and> current_node t' = current_node t \<and>
         is_on_rollout_policy t' = is_on_rollout_policy t \<and> root_node t' = root_node t"
  using assms
  by (auto simp: select_action_def rbind_eq_Inr Let_def split: if_splits prod.splits option.splits)

lemma reset_game_selecting: "at_root_selecting (tree_dict (reset_game sim))"
  by (auto simp: at_root_selecting_def reset_game_def list_all_iff)

lemma list_all_dict_set_tree:
  "list_all P d \<Longrightarrow> P (k, v) \<Longrightarrow> list_all P (dict_set d k v)"
  unfolding dict_set_def by (induction d) auto

lemma build_trees_selecting:
  "build_trees g ps d = Inr ts \<Longrightarrow> at_root_selecting d \<Longrightarrow> at_root_selecting ts"
proof (induction ps arbitrary: d)
  case Nil
  then show ?case by simp
next
  case (Cons q ps)
  from Cons.prems(1) obtain tq where tq: "Tree_init g q = Inr tq"
    and bt: "build_trees g ps (dict_set d q tq) = Inr ts"
    by (auto simp: rbind_eq_Inr)
  from tq have "\<not> is_on_rollout_policy tq \<and> current_node tq = root_node tq"
    by (auto simp: Tree_init_def rbind_eq_Inr)
  then have "at_root_selecting (dict_set d q tq)"
    using Cons.prems(2) unfolding at_root_selecting_def
    by (intro list_all_dict_set_tree) simp_all
  from Cons.IH[OF bt this] show ?case .
qed

lemma Simulators_init_selecting:
  "Simulators_init g = Inr sim \<Longrightarrow> at_root_selecting (tree_dict sim)"
proof -
  assume "Simulators_init g = Inr sim"
  then obtain ts where "build_trees g (player_names g) [] = Inr ts" "tree_dict sim = ts"
    by (auto simp: Simulators_init_def rbind_eq_Inr)
  then show ?thesis using build_trees_selecting[of g "player_names g" "[]" ts]
    by (simp add: at_root_selecting_def)
qed

text \<open>
  Claim C5, amended to what the code does. At construction and after every reset each tree
  is selecting, with the cursor on its root. \<^verbatim>\<open>Tree.apply_event\<close> on a tree that is rolling
  out returns the tree unchanged. On a selecting tree it builds a candidate node; the first
  of the current node and its children, in this order, that is equivalent to the candidate
  becomes the current node and nothing else changes; if none of them is equivalent, the
  candidate is appended as a new child of the current node, the cursor moves to it and the
  tree switches to rolling out. Selecting an action adds no node and changes neither the
  cursor nor the mode. Over the events of a simulated game (\<open>play_game\<close>, from any state of
  the coordinator) every tree is related to its earlier self by \<open>tree_grows\<close>: a tree that
  was rolling out is unchanged; a tree that was selecting has exactly one node more if it
  is rolling out at the end and exactly as many nodes as before if it is still selecting.
  So a game adds at most one node to a tree, and not always one.
\<close>

theorem single_node_expansion:
  "(Simulators_init root_state = Inr sim_new \<longrightarrow> at_root_selecting (tree_dict sim_new)) \<and>
   at_root_selecting (tree_dict (reset_game sim)) \<and>
   (is_on_rollout_policy t \<longrightarrow> tree_apply_event ev g t = Inr t) \<and>
   (\<not> is_on_rollout_policy t \<and>
    Node_init g (tree_player t) (Some ev) (Some (current_node t)) = Inr c \<and>
    i < length (existing_nodes t) \<and>
    is_equivalent_node (nodes t ! (existing_nodes t ! i)) c \<and>
    list_all (\<lambda>k. \<not> is_equivalent_node (nodes t ! k) c) (take i (existing_nodes t)) \<longrightarrow>
      tree_apply_event ev g t = Inr (t\<lparr>current_node := existing_nodes t ! i\<rparr>)) \<and>
   (\<not> is_on_rollout_policy t \<and>
    Node_init g (tree_player t) (Some ev) (Some (current_node t)) = Inr c \<and>
    list_all (\<lambda>k. \<not> is_equivalent_node (nodes t ! k) c) (existing_nodes t) \<longrightarrow>
      tree_apply_event ev g t = Inr (append_child t c)) \<and>
   (select_action g rs_a t = Inr (a, t', rs_b) \<longrightarrow>
      length (nodes t') = length (nodes t) \<and> current_node t' = current_node t \<and>
      is_on_rollout_policy t' = is_on_rollout_policy t \<and> root_node t' = root_node t) \<and>
   (play_game fuel rs sim = Some (Inr (sim', rs')) \<longrightarrow>
      trees_grow (tree_dict sim) (tree_dict sim'))"
  using Simulators_init_selecting[of root_state sim_new] reset_game_selecting[of sim]
    tree_apply_event_rollout[of t ev g] tree_apply_event_match[of t g ev c i]
    tree_apply_event_append[of t g ev c] select_action_frame[of g rs_a t a t' rs_b]
    play_game_grow[of fuel rs sim sim' rs']
  by blast

lemma init0: "Simulators_init g_one_card = Inr (sim_after 0)"
  by code_simp

lemma iter2: "iterations 2 5 [] (sim_after 0) = Some (Inr (sim_after 2, []))"
  by code_simp

lemma selecting2: "list_all (\<lambda>pt. \<not> is_on_rollout_policy (snd pt)) (tree_dict (sim_after 2))"
  by code_simp

theorem single_node_expansion_witness:
  "at_root_selecting (tree_dict (sim_after 0)) \<and>
   at_root_selecting (tree_dict (reset_game (sim_game_end 0))) \<and>
   tree_apply_event ev_draw_one g_one_card_drawn tree_rolling0 = Inr tree_rolling0 \<and>
   tree_apply_event ev_draw_one g_one_card_drawn tree_player0 = Inr (tree_player0\<lparr>current_node := 1\<rparr>) \<and>
   tree_apply_event ev_draw_one g_one_card_drawn tree_fresh0 =
     Inr (append_child tree_fresh0 node_after_draw) \<and>
   length (nodes (append_child tree_fresh0 node_after_draw)) = length (nodes tree_fresh0) + 1 \<and>
   trees_grow (tree_dict (sim_after 2)) (tree_dict (sim_game_end 2))"
proof -
  note t_match = single_node_expansion[where root_state = g_one_card and sim_new = "sim_after 0"
      and sim = "sim_game_end 0" and t = tree_player0 and ev = ev_draw_one
      and g = g_one_card_drawn and c = node_after_draw and i = 1]
  note t_app = single_node_expansion[where t = tree_fresh0 and ev = ev_draw_one
      and g = g_one_card_drawn and c = node_after_draw]
  note t_roll = single_node_expansion[where t = tree_rolling0 and ev = ev_draw_one
      and g = g_one_card_drawn]
  note t_game = single_node_expansion[where fuel = 5 and rs = "[]" and sim = "sim_after 2"
      and sim' = "sim_game_end 2" and rs' = "[]"]
  have m: "\<not> is_on_rollout_policy tree_player0"
    "Node_init g_one_card_drawn (tree_player tree_player0) (Some ev_draw_one)
       (Some (current_node tree_player0)) = Inr node_after_draw"
    "1 < length (existing_nodes tree_player0)"
    "is_equivalent_node (nodes tree_player0 ! (existing_nodes tree_player0 ! 1)) node_after_draw"
    "list_all (\<lambda>k. \<not> is_equivalent_node (nodes tree_player0 ! k) node_after_draw)
       (take 1 (existing_nodes tree_player0))"
    "existing_nodes tree_player0 ! 1 = 1"
    by code_simp+
  have a: "\<not> is_on_rollout_policy tree_fresh0"
    "Node_init g_one_card_drawn (tree_player tree_fresh0) (Some ev_draw_one)
       (Some (current_node tree_fresh0)) = Inr node_after_draw"
    "list_all (\<lambda>k. \<not> is_equivalent_node (nodes tree_fresh0 ! k) node_after_draw)
       (existing_nodes tree_fresh0)"
    "length (nodes (append_child tree_fresh0 node_after_draw)) = length (nodes tree_fresh0) + 1"
    by code_simp+
  have r: "is_on_rollout_policy tree_rolling0" by code_simp
  from t_match init0 have 1: "at_root_selecting (tree_dict (sim_after 0))" by blast
  from t_match have 2: "at_root_selecting (tree_dict (reset_game (sim_game_end 0)))" by blast
  from t_roll r have 3: "tree_apply_event ev_draw_one g_one_card_drawn tree_rolling0 = Inr tree_rolling0"
    by blast
  from t_match m(1-5) have "tree_apply_event ev_draw_one g_one_card_drawn tree_player0 =
      Inr (tree_player0\<lparr>current_node := existing_nodes tree_player0 ! 1\<rparr>)" by blast
  then have 4: "tree_apply_event ev_draw_one g_one_card_drawn tree_player0 =
      Inr (tree_player0\<lparr>current_node := 1\<rparr>)" by (simp only: m(6))
  from t_app a(1-3) have 5: "tree_apply_event ev_draw_one g_one_card_drawn tree_fresh0 =
     Inr (append_child tree_fresh0 node_after_draw)" by blast
  from t_game play2 have 6: "trees_grow (tree_dict (sim_after 2)) (tree_dict (sim_game_end 2))"
    by blast
  from 1 2 3 4 5 a(4) 6 show ?thesis by blast
qed

text \<open>
  The claim as the specification words it asks for exactly one new node per tree and game.
  In the search from \<^verbatim>\<open>Kariba(deck=np.array([1]), n_species=1, max_n_hand=1)\<close> the third
  simulated game starts with both trees selecting (3 and 2 nodes, cursors on the roots) and
  ends with both trees still selecting and no node added: every event matched a known node.
\<close>

theorem no_expansion_counterexample:
  "Simulators_init g_one_card = Inr (sim_after 0) \<and>
   iterations 2 5 [] (sim_after 0) = Some (Inr (sim_after 2, [])) \<and>
   tree_shape (sim_after 2) = [(''player0'', 3, 0, False), (''player1'', 2, 0, False)] \<and>
   play_game 5 [] (sim_after 2) = Some (Inr (sim_game_end 2, [])) \<and>
   tree_shape (sim_game_end 2) = [(''player0'', 3, 2, False), (''player1'', 2, 1, False)]"
  using init0 iter2 shape2 play2 shape_end2 by simp

text \<open>
  Claim C10. While a tree is selecting, an event after which the live game shows the
  owning player the hand, the field and the jungle of the current node (of that player's
  tree) matches the current node itself: the tree is returned as it was, cursor, nodes and
  mode.
\<close>

theorem unchanged_view_keeps_cursor:
  assumes "\<not> is_on_rollout_policy t"
    and "whose_turn g = Inr turn"
    and "dict_get (hands g) (tree_player t) = Inr (node_hand (nodes t ! current_node t))"
    and "field g = node_field (nodes t ! current_node t)"
    and "jungle g (tree_player t) = Inr (node_jungle (nodes t ! current_node t))"
    and "node_player (nodes t ! current_node t) = tree_player t"
  shows "tree_apply_event ev g t = Inr t"
  using assms
  by (simp add: tree_apply_event_def Node_init_def is_equivalent_node_def Let_def)

lemma tree_player1_eq:
  "tree_player1 = \<lparr>tree_player = ''player1'',
      nodes = [\<lparr>node_player = ''player1'', node_parent = None, node_children = [],
                node_whose_turn = ''player0'', node_hand = [0], node_field = [0],
                node_jungle = [1], node_n = 0, is_root_node = True,
                is_post_action_node = False, untried_actions = None,
                node_action = None, node_w = None\<rparr>],
      root_node = 0, current_node = 0, is_on_rollout_policy = False\<rparr>"
  by code_simp

lemma drawn_eq: "apply_event \<lparr>kind = ''deck_draw'', who = ''player0'', cards = [1]\<rparr> g_one_card
    = Inr g_one_card_drawn"
  by code_simp

theorem unchanged_view_keeps_cursor_witness:
  "tree_apply_event \<lparr>kind = ''deck_draw'', who = ''player0'', cards = [1]\<rparr> g_one_card_drawn
     tree_player1 = Inr tree_player1"
proof -
  have g: "g_one_card_drawn = \<lparr> n_species = 1, max_n_hand = 1, whose_turn_idx = 0,
      player_names = [''player0'', ''player1''], n_players = 2, deck = [0], field = [0],
      hands = [(''player0'', [1]), (''player1'', [0])],
      scoreboard = [(''player0'', 0), (''player1'', 0)] \<rparr>"
    by code_simp
  show ?thesis
    by (rule unchanged_view_keeps_cursor[where turn = "''player0''"])
      (simp_all add: tree_player1_eq g whose_turn_def py_get_def dict_get_def jungle_def
        np_add_def np_binop_def)
qed

theorem reset_game_frame_witness:
  "tree_shape (sim_game_end 0) = [(''player0'', 2, 1, True), (''player1'', 2, 1, True)] \<and>
   current_node (snd (tree_dict (reset_game (sim_game_end 0)) ! 0)) = 0 \<and>
   \<not> is_on_rollout_policy (snd (tree_dict (reset_game (sim_game_end 0)) ! 0)) \<and>
   nodes (snd (tree_dict (reset_game (sim_game_end 0)) ! 0)) =
     nodes (snd (tree_dict (sim_game_end 0) ! 0))"
proof -
  have l: "0 < length (tree_dict (sim_game_end 0))" by code_simp
  have r: "root_node (snd (tree_dict (sim_game_end 0) ! 0)) = 0" by code_simp
  note f = reset_game_frame[of "sim_game_end 0", THEN conjunct2, THEN conjunct2,
      THEN conjunct2, THEN spec, THEN mp, OF l]
  from f r shape_end0 show ?thesis by simp
qed

lemma tree_player0_kids:
  "map (\<lambda>c. (is_post_action_node c, node_action c, node_n c)) (cursor_children tree_player0) =
     [(False, None, 3)]"
  by code_simp

theorem select_best_action_defined_witness:
  "select_best_action tree_player0 = Inl AttributeError"
proof -
  have 1: "list_all node_inv (cursor_children tree_player0)" by code_simp
  have 2: "cursor_children tree_player0 \<noteq> [] \<and>
           list_all (\<lambda>c. \<not> is_post_action_node c) (cursor_children tree_player0)" by code_simp
  from select_best_action_defined[OF 1, THEN conjunct2, THEN conjunct2, THEN mp, OF 2]
  show ?thesis .
qed

section \<open>The search on a freshly built state\<close>

lemma g_fresh_eq:
  "g_fresh = \<lparr> n_species = 2, max_n_hand = 2, whose_turn_idx = 0,
      player_names = [''player0'', ''player1''], n_players = 2, deck = [4, 4], field = [0, 0],
      hands = [(''player0'', [0, 0]), (''player1'', [0, 0])],
      scoreboard = [(''player0'', 0), (''player1'', 0)] \<rparr>"
  by code_simp

subsection \<open>The root of a tree and its children\<close>

lemma same_shape_nth:
  "same_shape ns ns' \<longleftrightarrow> length ns' = length ns \<and>
     (\<forall>i<length ns. node_children (ns' ! i) = node_children (ns ! i) \<and>
        node_action (ns' ! i) = node_action (ns ! i) \<and> node_hand (ns' ! i) = node_hand (ns ! i))"
  by (auto simp: same_shape_def list_all2_conv_all_nth)

lemma same_shape_refl: "same_shape ns ns"
  by (simp add: same_shape_nth)

lemma same_shape_trans: "same_shape a b \<Longrightarrow> same_shape b c \<Longrightarrow> same_shape a c"
  by (simp add: same_shape_nth)

lemma same_shape_update:
  assumes "node_children nd = node_children (ns ! i)" "node_action nd = node_action (ns ! i)"
    "node_hand nd = node_hand (ns ! i)"
  shows "same_shape ns (ns[i := nd])"
proof (cases "i < length ns")
  case True
  with assms show ?thesis by (simp add: same_shape_nth nth_list_update)
next
  case False
  then have "ns[i := nd] = ns" by (intro list_update_beyond) simp
  then show ?thesis by (simp add: same_shape_refl)
qed

lemma root_neutral_iff:
  "root_neutral h t \<longleftrightarrow>
     nodes t \<noteq> [] \<and> root_node t = 0 \<and> node_hand (nodes t ! 0) = h \<and>
     (\<forall>i<length (nodes t). \<forall>c\<in>set (node_children (nodes t ! i)). 0 < c \<and> c < length (nodes t)) \<and>
     (\<forall>c\<in>set (node_children (nodes t ! 0)). node_action (nodes t ! c) = None)"
proof -
  have a: "list_all (\<lambda>nd. list_all (\<lambda>c. 0 < c \<and> c < length (nodes t)) (node_children nd)) (nodes t)
     \<longleftrightarrow> (\<forall>i<length (nodes t). \<forall>c\<in>set (node_children (nodes t ! i)). 0 < c \<and> c < length (nodes t))"
    unfolding list_all_length[of _ "nodes t"] by (simp only: list_all_iff)
  have b: "list_all (\<lambda>c. node_action (nodes t ! c) = None) (node_children (nodes t ! 0))
     \<longleftrightarrow> (\<forall>c\<in>set (node_children (nodes t ! 0)). node_action (nodes t ! c) = None)"
    by (simp only: list_all_iff)
  show ?thesis unfolding root_neutral_def a b ..
qed

lemma root_neutral_same_shape:
  assumes "root_neutral h t" "same_shape (nodes t) (nodes t')" "root_node t' = root_node t"
  shows "root_neutral h t'"
proof -
  from assms(2) have len: "length (nodes t') = length (nodes t)"
    and sh: "\<And>i. i < length (nodes t) \<Longrightarrow> node_children (nodes t' ! i) = node_children (nodes t ! i)"
    and sa: "\<And>i. i < length (nodes t) \<Longrightarrow> node_action (nodes t' ! i) = node_action (nodes t ! i)"
    and sd: "\<And>i. i < length (nodes t) \<Longrightarrow> node_hand (nodes t' ! i) = node_hand (nodes t ! i)"
    unfolding same_shape_nth by blast+
  from assms(1) have ne: "nodes t \<noteq> []" and rt: "root_node t = 0"
    and hd: "node_hand (nodes t ! 0) = h"
    and kb: "\<And>i c. i < length (nodes t) \<Longrightarrow> c \<in> set (node_children (nodes t ! i)) \<Longrightarrow>
               0 < c \<and> c < length (nodes t)"
    and na: "\<And>c. c \<in> set (node_children (nodes t ! 0)) \<Longrightarrow> node_action (nodes t ! c) = None"
    unfolding root_neutral_iff by blast+
  have z: "0 < length (nodes t)" using ne by simp
  show ?thesis unfolding root_neutral_iff
  proof (intro conjI allI impI ballI)
    show "nodes t' \<noteq> []" using len ne by auto
    show "root_node t' = 0" using assms(3) rt by simp
    show "node_hand (nodes t' ! 0) = h" using sd[OF z] hd by simp
  next
    fix i c assume "i < length (nodes t')" "c \<in> set (node_children (nodes t' ! i))"
    then have "i < length (nodes t)" "c \<in> set (node_children (nodes t ! i))"
      using len sh by simp_all
    from kb[OF this] show "0 < c" "c < length (nodes t')" using len by simp_all
  next
    fix c assume "c \<in> set (node_children (nodes t' ! 0))"
    then have c: "c \<in> set (node_children (nodes t ! 0))" using sh[OF z] by simp
    from kb[OF z c] have "c < length (nodes t)" by simp
    from sa[OF this] na[OF c] show "node_action (nodes t' ! c) = None" by simp
  qed
qed

lemma find_SomeD: "find P xs = Some x \<Longrightarrow> x \<in> set xs \<and> P x"
  by (auto simp: find_Some_iff)

lemma tree_apply_eventE:
  assumes "\<not> is_on_rollout_policy t" "tree_apply_event ev g t = Inr t'"
  obtains (move) c k where
      "Node_init g (tree_player t) (Some ev) (Some (current_node t)) = Inr c"
      "k \<in> set (current_node t # node_children (nodes t ! current_node t))"
      "is_equivalent_node (nodes t ! k) c" "t' = t\<lparr>current_node := k\<rparr>"
  | (append) c where
      "Node_init g (tree_player t) (Some ev) (Some (current_node t)) = Inr c"
      "\<not> is_equivalent_node (nodes t ! current_node t) c"
      "t' = t\<lparr>nodes := (nodes t)[current_node t :=
               (nodes t ! current_node t)\<lparr>node_children :=
                  node_children (nodes t ! current_node t) @ [length (nodes t)]\<rparr>] @ [c],
             current_node := length (nodes t), is_on_rollout_policy := True\<rparr>"
proof -
  let ?cur = "nodes t ! current_node t"
  from assms have "rbind (Node_init g (tree_player t) (Some ev) (Some (current_node t))) (\<lambda>c.
       (case find (\<lambda>i. is_equivalent_node (nodes t ! i) c) (current_node t # node_children ?cur) of
              Some existing \<Rightarrow> Inr (t\<lparr>current_node := existing\<rparr>)
            | None \<Rightarrow> Inr (t\<lparr>nodes := (nodes t)[current_node t :=
                                     ?cur\<lparr>node_children := node_children ?cur @ [length (nodes t)]\<rparr>] @ [c],
                         current_node := length (nodes t), is_on_rollout_policy := True\<rparr>))) = Inr t'"
    by (simp add: tree_apply_event_def Let_def del: find.simps)
  then show thesis
  proof (rule rbindE)
    fix c
    assume n: "Node_init g (tree_player t) (Some ev) (Some (current_node t)) = Inr c"
    assume r: "(case find (\<lambda>i. is_equivalent_node (nodes t ! i) c) (current_node t # node_children ?cur) of
              Some existing \<Rightarrow> Inr (t\<lparr>current_node := existing\<rparr>)
            | None \<Rightarrow> Inr (t\<lparr>nodes := (nodes t)[current_node t :=
                                     ?cur\<lparr>node_children := node_children ?cur @ [length (nodes t)]\<rparr>] @ [c],
                         current_node := length (nodes t), is_on_rollout_policy := True\<rparr>)) = Inr t'"
    show thesis
    proof (cases "find (\<lambda>i. is_equivalent_node (nodes t ! i) c) (current_node t # node_children ?cur)")
      case None
      then have "\<not> is_equivalent_node (nodes t ! current_node t) c"
        unfolding find_None_iff by auto
      moreover from r None have "t' = t\<lparr>nodes := (nodes t)[current_node t :=
               ?cur\<lparr>node_children := node_children ?cur @ [length (nodes t)]\<rparr>] @ [c],
             current_node := length (nodes t), is_on_rollout_policy := True\<rparr>"
        by (simp del: find.simps)
      ultimately show thesis using n by (rule append[rotated])
    next
      case (Some k)
      from find_SomeD[OF Some] have "k \<in> set (current_node t # node_children ?cur)"
        "is_equivalent_node (nodes t ! k) c" by blast+
      moreover from r Some have "t' = t\<lparr>current_node := k\<rparr>" by (simp del: find.simps)
      ultimately show thesis using n by (intro move[of c k])
    qed
  qed
qed

subsection \<open>Events and selections on a tree whose root has neutral children\<close>

lemma Node_init_children: "Node_init g p ev parent = Inr c \<Longrightarrow> node_children c = []"
  by (auto simp: Node_init_def rbind_eq_Inr Let_def)

lemma Node_init_hand: "Node_init g p ev parent = Inr c \<Longrightarrow> dict_get (hands g) p = Inr (node_hand c)"
  by (auto simp: Node_init_def rbind_eq_Inr Let_def)

lemma Node_init_neutral:
  "Node_init g p (Some ev) parent = Inr c \<Longrightarrow> kind ev \<noteq> ''action'' \<Longrightarrow> node_action c = None"
  by (auto simp: Node_init_def rbind_eq_Inr Let_def)

text \<open>Appending a child to the node at the cursor.\<close>

lemma root_neutral_append:
  assumes r: "root_neutral h t" and cur: "current_node t < length (nodes t)"
    and c: "node_children c = []"
    and act: "current_node t = 0 \<Longrightarrow> node_action c = None"
    and t': "t' = t\<lparr>nodes := (nodes t)[current_node t :=
               (nodes t ! current_node t)\<lparr>node_children :=
                  node_children (nodes t ! current_node t) @ [length (nodes t)]\<rparr>] @ [c],
             current_node := length (nodes t), is_on_rollout_policy := True\<rparr>"
  shows "root_neutral h t'"
proof -
  let ?n = "length (nodes t)"
  let ?k = "current_node t"
  let ?upd = "(nodes t ! ?k)\<lparr>node_children := node_children (nodes t ! ?k) @ [?n]\<rparr>"
  from r have ne: "nodes t \<noteq> []" and rt: "root_node t = 0"
    and hd: "node_hand (nodes t ! 0) = h"
    and kb: "\<And>i x. i < ?n \<Longrightarrow> x \<in> set (node_children (nodes t ! i)) \<Longrightarrow> 0 < x \<and> x < ?n"
    and na: "\<And>x. x \<in> set (node_children (nodes t ! 0)) \<Longrightarrow> node_action (nodes t ! x) = None"
    unfolding root_neutral_iff by blast+
  have z: "0 < ?n" using ne by simp
  have ns: "nodes t' = (nodes t)[?k := ?upd] @ [c]" by (simp add: t')
  have len: "length (nodes t') = Suc ?n" by (simp add: ns)
  have old: "\<And>i. i < ?n \<Longrightarrow> nodes t' ! i = (if i = ?k then ?upd else nodes t ! i)"
    using cur by (simp add: ns nth_append nth_list_update)
  have new: "nodes t' ! ?n = c" by (simp add: ns nth_append)
  have ch: "\<And>i. i < ?n \<Longrightarrow> node_children (nodes t' ! i) =
      (if i = ?k then node_children (nodes t ! i) @ [?n] else node_children (nodes t ! i))"
    by (simp add: old)
  have ac: "\<And>i. i < ?n \<Longrightarrow> node_action (nodes t' ! i) = node_action (nodes t ! i)"
    by (simp add: old)
  show ?thesis unfolding root_neutral_iff
  proof (intro conjI allI impI ballI)
    show "nodes t' \<noteq> []" by (simp add: ns)
    show "root_node t' = 0" using rt by (simp add: t')
    show "node_hand (nodes t' ! 0) = h" using hd z by (simp add: old)
  next
    fix i x assume i: "i < length (nodes t')" and x: "x \<in> set (node_children (nodes t' ! i))"
    have "0 < x \<and> x < Suc ?n"
    proof (cases "i < ?n")
      case True
      with x ch[OF True] have "x \<in> set (node_children (nodes t ! i)) \<or> x = ?n"
        by (auto split: if_splits)
      then show ?thesis
      proof
        assume "x \<in> set (node_children (nodes t ! i))"
        from kb[OF True this] show ?thesis by simp
      next
        assume "x = ?n"
        with z show ?thesis by simp
      qed
    next
      case False
      with i len have "i = ?n" by simp
      with x new c show ?thesis by simp
    qed
    then show "0 < x" "x < length (nodes t')" using len by simp_all
  next
    fix x assume x: "x \<in> set (node_children (nodes t' ! 0))"
    show "node_action (nodes t' ! x) = None"
    proof (cases "x = ?n")
      case True
      have "?k = 0"
      proof (rule ccontr)
        assume "?k \<noteq> 0"
        then have "node_children (nodes t' ! 0) = node_children (nodes t ! 0)" using ch[OF z] by simp
        with x kb[OF z, of x] True show False by simp
      qed
      with act new True show ?thesis by simp
    next
      case False
      with x ch[OF z] have x0: "x \<in> set (node_children (nodes t ! 0))" by (auto split: if_splits)
      from kb[OF z x0] have "x < ?n" by simp
      from ac[OF this] na[OF x0] show ?thesis by simp
    qed
  qed
qed

lemma root_neutral_cursor: "root_neutral h t \<Longrightarrow> root_neutral h (t\<lparr>current_node := k\<rparr>)"
  by (simp add: root_neutral_def)

text \<open>An event applied while the cursor is away from the root.\<close>

lemma tree_apply_event_away:
  assumes "root_neutral h t" "0 < current_node t" "current_node t < length (nodes t)"
    and "tree_apply_event ev g t = Inr t'"
  shows "root_neutral h t' \<and> 0 < current_node t' \<and> current_node t' < length (nodes t')"
proof (cases "is_on_rollout_policy t")
  case True
  with assms show ?thesis by (simp add: tree_apply_event_def)
next
  case False
  from assms(1) have kb: "\<And>i x. i < length (nodes t) \<Longrightarrow> x \<in> set (node_children (nodes t ! i)) \<Longrightarrow>
      0 < x \<and> x < length (nodes t)"
    unfolding root_neutral_iff by blast
  from False assms(4) show ?thesis
  proof (cases rule: tree_apply_eventE)
    case (move c k)
    from move(2) kb[OF assms(3), of k] assms(2,3) have "0 < k \<and> k < length (nodes t)" by auto
    then show ?thesis using root_neutral_cursor[OF assms(1), of k] move(4) by simp
  next
    case (append c)
    have "root_neutral h t'"
      by (rule root_neutral_append[OF assms(1,3) Node_init_children[OF append(1)] _ append(3)])
        (use assms(2) in simp)
    moreover have "nodes t \<noteq> []" using assms(3) by auto
    ultimately show ?thesis by (simp add: append(3))
  qed
qed

text \<open>The first event of a game, at the root: a candidate with another hand and no action.\<close>

lemma tree_apply_event_first:
  assumes "root_neutral h t" "current_node t = 0" "\<not> is_on_rollout_policy t"
    and "tree_apply_event ev g t = Inr t'"
    and "kind ev \<noteq> ''action''"
    and "dict_get (hands g) (tree_player t) = Inr h'" "h' \<noteq> h"
  shows "root_neutral h t' \<and> 0 < current_node t' \<and> current_node t' < length (nodes t')"
proof -
  from assms(1) have ne: "nodes t \<noteq> []" and hd: "node_hand (nodes t ! 0) = h"
    and kb: "\<And>i x. i < length (nodes t) \<Longrightarrow> x \<in> set (node_children (nodes t ! i)) \<Longrightarrow>
      0 < x \<and> x < length (nodes t)"
    unfolding root_neutral_iff by blast+
  have z: "0 < length (nodes t)" using ne by simp
  from assms(3,4) show ?thesis
  proof (cases rule: tree_apply_eventE)
    case (move c k)
    have "node_hand c = h'" using Node_init_hand[OF move(1)] assms(6) by simp
    then have "\<not> is_equivalent_node (nodes t ! 0) c"
      using hd assms(7) by (auto simp: is_equivalent_node_def)
    with move(2,3) assms(2) have "k \<in> set (node_children (nodes t ! 0))" by auto
    from kb[OF z this] show ?thesis
      using root_neutral_cursor[OF assms(1), of k] move(4) by simp
  next
    case (append c)
    have "root_neutral h t'"
      by (rule root_neutral_append[OF assms(1) _ Node_init_children[OF append(1)] _ append(3)])
        (use assms(2) z Node_init_neutral[OF append(1) assms(5)] in simp_all)
    then show ?thesis using z by (simp add: append(3))
  qed
qed

lemma select_action_shape:
  assumes "select_action g rs t = Inr (a, t', rs')"
  shows "same_shape (nodes t) (nodes t') \<and> root_node t' = root_node t \<and>
         current_node t' = current_node t \<and> tree_player t' = tree_player t"
proof (cases "is_on_rollout_policy t")
  case True
  with assms have "t' = t"
    by (auto simp: select_action_def rbind_eq_Inr split: prod.splits)
  then show ?thesis by (simp add: same_shape_refl)
next
  case False
  let ?cur = "nodes t ! current_node t"
  let ?prep = "if untried_actions ?cur = None \<and> node_children ?cur = []
               then rbind (allowed_actions g (tree_player t)) (\<lambda>acts.
                      (let (shuffled, rs1) = shuffle rs acts
                       in Inr (?cur\<lparr>untried_actions := Some shuffled\<rparr>, rs1)))
               else Inr (?cur, rs)"
  from assms False obtain cr where p: "?prep = Inr cr"
    and r: "(case cr of (cur1, rs1) \<Rightarrow>
            case untried_actions cur1 of
              None \<Rightarrow> Inl TypeError
            | Some untried \<Rightarrow>
                if untried \<noteq> [] then
                  Inr (last untried,
                       t\<lparr>nodes := (nodes t)[current_node t :=
                                     cur1\<lparr>untried_actions := Some (butlast untried)\<rparr>]\<rparr>,
                       rs1)
                else
                  rbind (argmax_ucb rs1 (map (\<lambda>c. nodes t ! c) (node_children cur1))) (\<lambda>(i, rs2).
                    case node_action (nodes t ! (node_children cur1 ! i)) of
                      None \<Rightarrow> Inl AttributeError
                    | Some a \<Rightarrow> Inr (a, t\<lparr>nodes := (nodes t)[current_node t := cur1]\<rparr>, rs2)))
          = Inr (a, t', rs')"
    unfolding select_action_def Let_def by (auto elim: rbindE)
  obtain cur1 rs1 where cr: "cr = (cur1, rs1)" by (cases cr)
  have c1: "node_children cur1 = node_children ?cur \<and> node_action cur1 = node_action ?cur \<and>
            node_hand cur1 = node_hand ?cur"
    using p unfolding cr
    by (auto simp: rbind_eq_Inr Let_def case_prod_beta split: if_splits)
  have "\<exists>nd. node_children nd = node_children ?cur \<and> node_action nd = node_action ?cur \<and>
     node_hand nd = node_hand ?cur \<and> t' = t\<lparr>nodes := (nodes t)[current_node t := nd]\<rparr>"
  proof (cases "untried_actions cur1")
    case None
    with r show ?thesis by (simp add: cr)
  next
    case (Some untried)
    show ?thesis
    proof (cases "untried = []")
      case False
      with r Some have "t' = t\<lparr>nodes := (nodes t)[current_node t :=
                                     cur1\<lparr>untried_actions := Some (butlast untried)\<rparr>]\<rparr>"
        by (simp add: cr)
      with c1 show ?thesis by (intro exI[of _ "cur1\<lparr>untried_actions := Some (butlast untried)\<rparr>"]) simp
    next
      case True
      with r Some have "t' = t\<lparr>nodes := (nodes t)[current_node t := cur1]\<rparr>"
        by (auto simp: cr rbind_eq_Inr split: prod.splits option.splits)
      with c1 show ?thesis by (intro exI[of _ cur1]) simp
    qed
  qed
  then obtain nd where nd: "node_children nd = node_children ?cur" "node_action nd = node_action ?cur"
     "node_hand nd = node_hand ?cur" and t': "t' = t\<lparr>nodes := (nodes t)[current_node t := nd]\<rparr>"
    by blast
  from same_shape_update[OF nd] show ?thesis by (simp add: t')
qed

subsection \<open>Backpropagation keeps the shape of a tree\<close>

lemma backpropagate_shape: "backpropagate winner i ns = Inr ns' \<Longrightarrow> same_shape ns ns'"
proof (induction winner i ns arbitrary: ns' rule: backpropagate.induct)
  case (1 winner i ns)
  let ?nd = "ns ! i"
  let ?nd' = "?nd\<lparr>node_n := node_n ?nd + 1,
                      node_w := (if is_post_action_node ?nd
                                 then map_option (\<lambda>w. w + (if winner = node_player ?nd then 1 else 0))
                                        (node_w ?nd)
                                 else node_w ?nd)\<rparr>"
  let ?ns1 = "ns[i := ?nd']"
  have s1: "same_shape ns ?ns1" by (rule same_shape_update) simp_all
  from "1.prems" have ok: "\<not> (is_post_action_node ?nd \<and> node_w ?nd = None)"
    by (subst (asm) backpropagate.simps) (auto simp: Let_def split: if_splits)
  from "1.prems" ok have r: "(case node_parent ?nd of None \<Rightarrow> Inr ?ns1
     | Some p \<Rightarrow> if p < i then backpropagate winner p ?ns1 else Inr ?ns1) = Inr ns'"
    by (subst (asm) backpropagate.simps) (simp add: Let_def)
  show ?case
  proof (cases "node_parent ?nd")
    case None
    with r s1 show ?thesis by simp
  next
    case (Some p)
    show ?thesis
    proof (cases "p < i")
      case True
      with r Some have b: "backpropagate winner p ?ns1 = Inr ns'" by simp
      have "same_shape ?ns1 ns'"
        by (rule "1.IH"[OF refl ok refl refl Some True b])
      with s1 show ?thesis by (rule same_shape_trans)
    next
      case False
      with r Some s1 show ?thesis by simp
    qed
  qed
qed

lemma tree_backpropagate_shape:
  "tree_backpropagate winner t = Inr t' \<Longrightarrow>
     same_shape (nodes t) (nodes t') \<and> root_node t' = root_node t \<and>
     current_node t' = current_node t \<and> tree_player t' = tree_player t \<and>
     is_on_rollout_policy t' = is_on_rollout_policy t"
  by (auto simp: tree_backpropagate_def rbind_eq_Inr dest: backpropagate_shape)

lemma tree_apply_event_player:
  "tree_apply_event ev g t = Inr t' \<Longrightarrow> tree_player t' = tree_player t"
proof (cases "is_on_rollout_policy t")
  case True
  assume "tree_apply_event ev g t = Inr t'"
  with True show ?thesis by (simp add: tree_apply_event_def)
next
  case False
  assume "tree_apply_event ev g t = Inr t'"
  with False show ?thesis by (cases rule: tree_apply_eventE) simp_all
qed

lemma trees_apply_event_map_of:
  "trees_apply_event ev g d = Inr d' \<Longrightarrow> map_of d p = Some t \<Longrightarrow>
     \<exists>t'. map_of d' p = Some t' \<and> tree_apply_event ev g t = Inr t'"
proof (induction d arbitrary: d')
  case Nil
  then show ?case by simp
next
  case (Cons x d)
  obtain q u where x: "x = (q, u)" by (cases x)
  from Cons.prems(1) obtain u1 d1 where 1: "tree_apply_event ev g u = Inr u1"
    and 2: "trees_apply_event ev g d = Inr d1" and 3: "d' = (q, u1) # d1"
    by (auto simp: x rbind_eq_Inr)
  show ?case
  proof (cases "q = p")
    case True
    with Cons.prems(2) x have "t = u" by simp
    with True 1 3 show ?thesis by simp
  next
    case False
    with Cons.prems(2) x have "map_of d p = Some t" by simp
    from Cons.IH[OF 2 this] False 3 show ?thesis by simp
  qed
qed

lemma trees_backpropagate_map_of:
  "trees_backpropagate winner d = Inr d' \<Longrightarrow> map_of d p = Some t \<Longrightarrow>
     \<exists>t'. map_of d' p = Some t' \<and> tree_backpropagate winner t = Inr t'"
proof (induction d arbitrary: d')
  case Nil
  then show ?case by simp
next
  case (Cons x d)
  obtain q u where x: "x = (q, u)" by (cases x)
  from Cons.prems(1) obtain u1 d1 where 1: "tree_backpropagate winner u = Inr u1"
    and 2: "trees_backpropagate winner d = Inr d1" and 3: "d' = (q, u1) # d1"
    by (auto simp: x rbind_eq_Inr)
  show ?case
  proof (cases "q = p")
    case True
    with Cons.prems(2) x have "t = u" by simp
    with True 1 3 show ?thesis by simp
  next
    case False
    with Cons.prems(2) x have "map_of d p = Some t" by simp
    from Cons.IH[OF 2 this] False 3 show ?thesis by simp
  qed
qed

lemma map_of_dict_set: "map_of (dict_set d q v) p = (if p = q then Some v else map_of d p)"
  by (simp add: dict_set_def update_conv')

subsection \<open>A simulated game after its first event\<close>

lemma mid_game_iff:
  "mid_game p h sim \<longleftrightarrow>
     (\<exists>t. map_of (tree_dict sim) p = Some t \<and> tree_player t = p \<and> root_neutral h t \<and>
          0 < current_node t \<and> current_node t < length (nodes t))"
  by (simp add: mid_game_def split: option.splits)

lemma at_root_iff:
  "at_root p h g sim \<longleftrightarrow>
     game sim = g \<and> reset_state sim = g \<and>
     (\<exists>t. map_of (tree_dict sim) p = Some t \<and> tree_player t = p \<and> root_neutral h t \<and>
          current_node t = 0 \<and> \<not> is_on_rollout_policy t)"
  by (simp add: at_root_def split: option.splits)

lemma sim_apply_event_mid:
  assumes "sim_apply_event ev sim = Inr sim'" "mid_game p h sim"
  shows "mid_game p h sim'"
proof -
  from assms(1) obtain g1 ts where "apply_event ev (game sim) = Inr g1"
    and ts: "trees_apply_event ev g1 (tree_dict sim) = Inr ts"
    and s: "sim' = sim\<lparr>game := g1, tree_dict := ts\<rparr>"
    by (auto simp: sim_apply_event_def rbind_eq_Inr)
  from assms(2) obtain t where t: "map_of (tree_dict sim) p = Some t" "tree_player t = p"
    "root_neutral h t" "0 < current_node t" "current_node t < length (nodes t)"
    unfolding mid_game_iff by blast
  from trees_apply_event_map_of[OF ts t(1)] obtain t' where
    t': "map_of ts p = Some t'" "tree_apply_event ev g1 t = Inr t'" by blast
  from tree_apply_event_away[OF t(3,4,5) t'(2)] tree_apply_event_player[OF t'(2)] t(2) t'(1)
  show ?thesis unfolding mid_game_iff by (auto simp: s)
qed

lemma sim_select_action_mid:
  assumes "sim_select_action rs sim = Inr (a, sim', rs')" "mid_game p h sim"
  shows "mid_game p h sim'"
proof -
  from assms(1) obtain q u u' where q: "map_of (tree_dict sim) q = Some u"
    and sel: "select_action (game sim) rs u = Inr (a, u', rs')"
    and s: "sim' = sim\<lparr>tree_dict := dict_set (tree_dict sim) q u'\<rparr>"
    by (auto simp: sim_select_action_def rbind_eq_Inr dict_get_Inr)
  from assms(2) obtain t where t: "map_of (tree_dict sim) p = Some t" "tree_player t = p"
    "root_neutral h t" "0 < current_node t" "current_node t < length (nodes t)"
    unfolding mid_game_iff by blast
  show ?thesis
  proof (cases "q = p")
    case False
    then have "map_of (tree_dict sim') p = Some t" using t(1) by (simp add: s map_of_dict_set)
    with t show ?thesis unfolding mid_game_iff by blast
  next
    case True
    with q t(1) have u: "u = t" by simp
    note sh = select_action_shape[OF sel[unfolded u]]
    have "root_neutral h u'" using root_neutral_same_shape[OF t(3)] sh by blast
    moreover have "length (nodes u') = length (nodes t)" using sh by (simp add: same_shape_nth)
    moreover have "map_of (tree_dict sim') p = Some u'" using True by (simp add: s map_of_dict_set)
    ultimately show ?thesis using sh t unfolding mid_game_iff by auto
  qed
qed

lemma sim_next_turn_mid:
  "sim_next_turn sim = Inr sim' \<Longrightarrow> mid_game p h sim \<Longrightarrow> mid_game p h sim'"
  by (auto simp: sim_next_turn_def rbind_eq_Inr mid_game_iff)

text \<open>The rest of a turn after the draw was applied, and a whole turn from a mid-game state.\<close>

lemma turn_rest_mid:
  assumes "sim_select_action rs1 sim1 = Inr (act, sim2, rs2)"
    and "sim_apply_event act sim2 = Inr sim3" and "sim_next_turn sim3 = Inr sim4"
    and "mid_game p h sim1"
  shows "mid_game p h sim4"
  using assms sim_select_action_mid sim_apply_event_mid sim_next_turn_mid by blast

lemma play_turnE:
  assumes "play_turn rs sim = Inr (sim', rs')"
  obtains draw rs1 sim1 act sim2 sim3 where
    "sim_random_card_draw rs sim = Inr (draw, rs1)" "sim_apply_event draw sim = Inr sim1"
    "sim_select_action rs1 sim1 = Inr (act, sim2, rs')" "sim_apply_event act sim2 = Inr sim3"
    "sim_next_turn sim3 = Inr sim'"
proof -
  from assms obtain dr where 1: "sim_random_card_draw rs sim = Inr dr"
    and r1: "(case dr of (draw, rs1) \<Rightarrow>
       rbind (sim_apply_event draw sim) (\<lambda>sim1.
       rbind (sim_select_action rs1 sim1) (\<lambda>(act, sim2, rs2).
       rbind (sim_apply_event act sim2) (\<lambda>sim3.
       rbind (sim_next_turn sim3) (\<lambda>sim4. Inr (sim4, rs2)))))) = Inr (sim', rs')"
    unfolding play_turn_def by (rule rbindE)
  obtain draw rs1 where dr: "dr = (draw, rs1)" by (cases dr)
  from r1 obtain sim1 where 2: "sim_apply_event draw sim = Inr sim1"
    and r2: "rbind (sim_select_action rs1 sim1) (\<lambda>(act, sim2, rs2).
       rbind (sim_apply_event act sim2) (\<lambda>sim3.
       rbind (sim_next_turn sim3) (\<lambda>sim4. Inr (sim4, rs2)))) = Inr (sim', rs')"
    unfolding dr prod.case by (rule rbindE)
  from r2 obtain sel where 3: "sim_select_action rs1 sim1 = Inr sel"
    and r3: "(case sel of (act, sim2, rs2) \<Rightarrow>
       rbind (sim_apply_event act sim2) (\<lambda>sim3.
       rbind (sim_next_turn sim3) (\<lambda>sim4. Inr (sim4, rs2)))) = Inr (sim', rs')"
    by (rule rbindE)
  obtain act sim2 rs2 where sel: "sel = (act, sim2, rs2)" by (cases sel)
  from r3 obtain sim3 where 4: "sim_apply_event act sim2 = Inr sim3"
    and r4: "rbind (sim_next_turn sim3) (\<lambda>sim4. Inr (sim4, rs2)) = Inr (sim', rs')"
    unfolding sel prod.case by (rule rbindE)
  from r4 have 5: "sim_next_turn sim3 = Inr sim'" and 6: "rs2 = rs'"
    by (auto simp: rbind_eq_Inr)
  show thesis
    by (rule that[OF 1[unfolded dr] 2 3[unfolded sel 6] 4 5])
qed

lemma play_turn_mid:
  assumes "play_turn rs sim = Inr (sim', rs')" "mid_game p h sim"
  shows "mid_game p h sim'"
  using assms(1)
proof (rule play_turnE)
  fix draw rs1 sim1 act sim2 sim3
  assume "sim_apply_event draw sim = Inr sim1"
    "sim_select_action rs1 sim1 = Inr (act, sim2, rs')" "sim_apply_event act sim2 = Inr sim3"
    "sim_next_turn sim3 = Inr sim'"
  then show ?thesis using sim_apply_event_mid[OF _ assms(2)] turn_rest_mid by blast
qed

lemma play_game_mid:
  "play_game fuel rs sim = Some (Inr (sim', rs')) \<Longrightarrow> mid_game p h sim \<Longrightarrow> mid_game p h sim'"
proof (induction fuel arbitrary: rs sim)
  case 0
  then show ?case by simp
next
  case (Suc fuel)
  show ?case
  proof (cases "is_final (game sim)")
    case (Inl e)
    with Suc.prems show ?thesis by simp
  next
    case (Inr fin)
    show ?thesis
    proof (cases fin)
      case True
      with Inr Suc.prems show ?thesis by simp
    next
      case False
      show ?thesis
      proof (cases "play_turn rs sim")
        case (Inl e)
        with Inr False Suc.prems show ?thesis by simp
      next
        case (Inr sr)
        obtain sim1 rs1 where sr: "sr = (sim1, rs1)" by (cases sr)
        from Suc.prems(1) \<open>is_final (game sim) = Inr fin\<close> False Inr sr
        have "play_game fuel rs1 sim1 = Some (Inr (sim', rs'))" by simp
        from Suc.IH[OF this play_turn_mid[OF Inr[unfolded sr] Suc.prems(2)]]
        show ?thesis .
      qed
    qed
  qed
qed

text \<open>The snapshot for the reset is never written.\<close>

lemma sim_apply_event_reset: "sim_apply_event ev sim = Inr sim' \<Longrightarrow> reset_state sim' = reset_state sim"
  by (auto simp: sim_apply_event_def rbind_eq_Inr)

lemma sim_select_action_reset:
  "sim_select_action rs sim = Inr (a, sim', rs') \<Longrightarrow> reset_state sim' = reset_state sim"
  by (auto simp: sim_select_action_def rbind_eq_Inr)

lemma sim_next_turn_reset: "sim_next_turn sim = Inr sim' \<Longrightarrow> reset_state sim' = reset_state sim"
  by (auto simp: sim_next_turn_def rbind_eq_Inr)

lemma play_turn_reset:
  assumes "play_turn rs sim = Inr (sim', rs')"
  shows "reset_state sim' = reset_state sim"
  using assms
proof (rule play_turnE)
  fix draw rs1 sim1 act sim2 sim3
  assume "sim_apply_event draw sim = Inr sim1"
    "sim_select_action rs1 sim1 = Inr (act, sim2, rs')" "sim_apply_event act sim2 = Inr sim3"
    "sim_next_turn sim3 = Inr sim'"
  then show ?thesis
    using sim_apply_event_reset sim_select_action_reset sim_next_turn_reset by metis
qed

lemma play_game_reset:
  "play_game fuel rs sim = Some (Inr (sim', rs')) \<Longrightarrow> reset_state sim' = reset_state sim"
proof (induction fuel arbitrary: rs sim)
  case 0
  then show ?case by simp
next
  case (Suc fuel)
  show ?case
  proof (cases "is_final (game sim)")
    case (Inl e)
    with Suc.prems show ?thesis by simp
  next
    case (Inr fin)
    show ?thesis
    proof (cases fin)
      case True
      with Inr Suc.prems show ?thesis by simp
    next
      case False
      show ?thesis
      proof (cases "play_turn rs sim")
        case (Inl e)
        with Inr False Suc.prems show ?thesis by simp
      next
        case (Inr sr)
        obtain sim1 rs1 where sr: "sr = (sim1, rs1)" by (cases sr)
        from Suc.prems(1) \<open>is_final (game sim) = Inr fin\<close> False Inr sr
        have "play_game fuel rs1 sim1 = Some (Inr (sim', rs'))" by simp
        from Suc.IH[OF this] play_turn_reset[OF Inr[unfolded sr]]
        show ?thesis by simp
      qed
    qed
  qed
qed

subsection \<open>One iteration of the search\<close>

lemma deck_draw_hand:
  assumes "kariba_wf g" "dict_get (hands g) p = Inr h" "length drawn = n_species g"
    and "apply_event \<lparr>kind = ''deck_draw'', who = p, cards = drawn\<rparr> g = Inr g1"
  shows "dict_get (hands g1) p = Inr (map2 (+) h drawn)"
proof -
  have lh: "length h = n_species g"
    using map_of_list_all[of "hands g" p h "\<lambda>v. length v = n_species g"] assms(1,2)
    by (simp add: kariba_wf_def dict_get_Inr)
  have ld: "length (deck g) = n_species g" using assms(1) by (simp add: kariba_wf_def)
  have "apply_deck_draw \<lparr>kind = ''deck_draw'', who = p, cards = drawn\<rparr> g = Inr g1"
    using assms(4) by (simp add: apply_event_def rbind_eq_Inr)
  then have "g1 = g\<lparr>deck := map2 (-) (deck g) drawn,
                    hands := dict_set (hands g) p (map2 (+) h drawn)\<rparr>"
    using assms(2,3) lh ld by (simp add: apply_deck_draw_def np_isub_def np_iadd_def)
  then show ?thesis by (simp add: dict_get_def map_of_dict_set)
qed

lemma first_turn_mid:
  assumes d: "draws_at_root g p h" and r: "at_root p h g sim"
    and pt: "play_turn rs sim = Inr (sim', rs')"
  shows "mid_game p h sim'"
  using pt
proof (rule play_turnE)
  fix draw rs1 sim1 act sim2 sim3
  assume dr: "sim_random_card_draw rs sim = Inr (draw, rs1)"
    and ap: "sim_apply_event draw sim = Inr sim1"
    and rest: "sim_select_action rs1 sim1 = Inr (act, sim2, rs')"
      "sim_apply_event act sim2 = Inr sim3" "sim_next_turn sim3 = Inr sim'"
  from d have wf: "kariba_wf g" and nn: "nonneg_deck g" and wt: "whose_turn g = Inr p"
    and hp: "dict_get (hands g) p = Inr h"
    and sm: "sum_list (deck g) < 2 ^ 63" and cap: "fits64 (max_n_hand g)"
    and k: "1 \<le> min (i64 (max_n_hand g - np_sum h)) (sum_list (deck g))"
    unfolding draws_at_root_def by blast+
  from r have gs: "game sim = g"
    unfolding at_root_iff by blast
  from r obtain t where t: "map_of (tree_dict sim) p = Some t" "tree_player t = p"
    "root_neutral h t" "current_node t = 0" "\<not> is_on_rollout_policy t"
    unfolding at_root_iff by blast
  have ldk: "length (deck g) = n_species g" using wf by (simp add: kariba_wf_def)
  from random_card_draw_ok[OF ldk nn sm cap wt hp, of rs] obtain drawn rs0 where
    rd: "random_card_draw rs g = Inr (\<lparr>kind = ''deck_draw'', who = p, cards = drawn\<rparr>, rs0)"
    and sd: "sum_list drawn = max 0 (min (i64 (max_n_hand g - np_sum h)) (sum_list (deck g)))"
    and le: "vec_le drawn (deck g)" by blast
  have draw: "draw = \<lparr>kind = ''deck_draw'', who = p, cards = drawn\<rparr>"
    using dr rd by (simp add: sim_random_card_draw_def gs)
  have ld: "length drawn = n_species g"
    using le wf by (simp add: vec_le_def kariba_wf_def)
  have lh: "length h = n_species g"
    using map_of_list_all[of "hands g" p h "\<lambda>v. length v = n_species g"] wf hp
    by (simp add: kariba_wf_def dict_get_Inr)
  from ap obtain g1 ts where g1: "apply_event draw g = Inr g1"
    and ts: "trees_apply_event draw g1 (tree_dict sim) = Inr ts"
    and s1: "sim1 = sim\<lparr>game := g1, tree_dict := ts\<rparr>"
    by (auto simp: sim_apply_event_def rbind_eq_Inr gs)
  have h1: "dict_get (hands g1) p = Inr (map2 (+) h drawn)"
    by (rule deck_draw_hand[OF wf hp ld g1[unfolded draw]])
  have "sum_list (map2 (+) h drawn) = sum_list h + sum_list drawn"
    using lh ld by (simp add: sum_list_map2_add)
  then have ne: "map2 (+) h drawn \<noteq> h" using sd k by auto
  from trees_apply_event_map_of[OF ts t(1)] obtain t1 where
    t1: "map_of ts p = Some t1" "tree_apply_event draw g1 t = Inr t1" by blast
  have "kind draw \<noteq> ''action''" by (simp add: draw)
  from tree_apply_event_first[OF t(3,4,5) t1(2) this h1[folded t(2)] ne]
    tree_apply_event_player[OF t1(2)] t(2) t1(1)
  have "mid_game p h sim1" unfolding mid_game_iff by (auto simp: s1)
  from turn_rest_mid[OF rest this] show ?thesis .
qed

lemma not_final_at_root:
  assumes "draws_at_root g p h"
  shows "is_final g = Inr False"
proof -
  from assms have "1 \<le> sum_list (deck g)" "sum_list (deck g) < 2 ^ 63"
    by (simp_all add: draws_at_root_def)
  then have "fits64 (sum_list (deck g))" by (intro fits64_nonneg) simp_all
  then have "np_sum (deck g) = sum_list (deck g)" by (rule np_sum_id)
  then show ?thesis using \<open>1 \<le> sum_list (deck g)\<close> by (simp add: is_final_def)
qed

lemma root_neutral_reset:
  "root_neutral h t \<Longrightarrow> root_neutral h (t\<lparr>current_node := k, is_on_rollout_policy := b\<rparr>)"
  by (simp add: root_neutral_def)

lemma map_of_reset:
  "map_of (map (\<lambda>(p, t). (p, f t)) d) q = map_option f (map_of d q)"
  by (induction d) auto

lemma iteration_at_root:
  assumes d: "draws_at_root g p h" and r: "at_root p h g sim"
    and it: "iteration fuel rs sim = Some (Inr (sim', rs'))"
  shows "at_root p h g sim'"
proof -
  from r have gs: "game sim = g" and rs0: "reset_state sim = g"
    unfolding at_root_iff by blast+
  from it obtain sim1 rs1 where pg: "play_game fuel rs sim = Some (Inr (sim1, rs1))"
    and fin: "rbind (leading_player (game sim1)) (\<lambda>winner.
                rbind (sim_backpropagate winner sim1) (\<lambda>sim2.
                  Inr (reset_game sim2, rs1))) = Inr (sim', rs')"
    by (auto simp: iteration_def split: option.splits sum.splits)
  from pg obtain f where fuel: "fuel = Suc f" by (cases fuel) simp_all
  from pg obtain simA rsA where pt: "play_turn rs sim = Inr (simA, rsA)"
    and pg': "play_game f rsA simA = Some (Inr (sim1, rs1))"
    unfolding fuel using not_final_at_root[OF d]
    by (auto simp: gs split: sum.splits)
  have m1: "mid_game p h sim1"
    by (rule play_game_mid[OF pg' first_turn_mid[OF d r pt]])
  have r1: "reset_state sim1 = g" using play_game_reset[OF pg] rs0 by simp
  from fin obtain winner sim2 where bp: "sim_backpropagate winner sim1 = Inr sim2"
    and s': "sim' = reset_game sim2"
    by (auto simp: rbind_eq_Inr)
  from bp obtain ts where ts: "trees_backpropagate winner (tree_dict sim1) = Inr ts"
    and s2: "sim2 = sim1\<lparr>tree_dict := ts\<rparr>"
    by (auto simp: sim_backpropagate_def rbind_eq_Inr)
  from m1 obtain t1 where t1: "map_of (tree_dict sim1) p = Some t1" "tree_player t1 = p"
    "root_neutral h t1" unfolding mid_game_iff by blast
  from trees_backpropagate_map_of[OF ts t1(1)] obtain t2 where
    t2: "map_of ts p = Some t2" "tree_backpropagate winner t1 = Inr t2" by blast
  note sh = tree_backpropagate_shape[OF t2(2)]
  have n2: "root_neutral h t2" using root_neutral_same_shape[OF t1(3)] sh by blast
  then have rt: "root_node t2 = 0" by (simp add: root_neutral_def)
  let ?t3 = "t2\<lparr>current_node := root_node t2, is_on_rollout_policy := False\<rparr>"
  have "map_of (tree_dict sim') p = Some ?t3"
    by (simp add: s' reset_game_def s2 map_of_reset t2(1))
  moreover have "root_neutral h ?t3" by (rule root_neutral_reset[OF n2])
  moreover have "tree_player ?t3 = p" using sh t1(2) by simp
  moreover have "game sim' = g" "reset_state sim' = g"
    using r1 by (simp_all add: s' reset_game_def s2)
  ultimately show ?thesis unfolding at_root_iff using rt by auto
qed

lemma iterations_at_root:
  "draws_at_root g p h \<Longrightarrow> at_root p h g sim \<Longrightarrow>
   iterations k fuel rs sim = Some (Inr (sim', rs')) \<Longrightarrow> at_root p h g sim'"
proof (induction k arbitrary: rs sim)
  case 0
  then show ?case by simp
next
  case (Suc k)
  from Suc.prems(3) obtain sim1 rs1 where 1: "iteration fuel rs sim = Some (Inr (sim1, rs1))"
    and 2: "iterations k fuel rs1 sim1 = Some (Inr (sim', rs'))"
    by (auto split: option.splits sum.splits)
  from Suc.IH[OF Suc.prems(1) iteration_at_root[OF Suc.prems(1,2) 1] 2] show ?case .
qed

subsection \<open>The search on a state whose first event is a draw\<close>

lemma py_get_mem: "py_get xs i = Inr x \<Longrightarrow> x \<in> set xs"
  by (auto simp: py_get_def Let_def split: if_splits)

lemma build_trees_map_of:
  "build_trees g ps d = Inr ts \<Longrightarrow>
   (p \<in> set ps \<longrightarrow> (\<exists>t. map_of ts p = Some t \<and> Tree_init g p = Inr t)) \<and>
   (p \<notin> set ps \<longrightarrow> map_of ts p = map_of d p)"
proof (induction ps arbitrary: d)
  case Nil
  then show ?case by simp
next
  case (Cons q ps)
  from Cons.prems obtain tq where tq: "Tree_init g q = Inr tq"
    and bt: "build_trees g ps (dict_set d q tq) = Inr ts"
    by (auto simp: rbind_eq_Inr)
  note ih = Cons.IH[OF bt]
  show ?case
  proof (cases "p \<in> set ps")
    case True
    then show ?thesis using ih by simp
  next
    case False
    then have "map_of ts p = (if p = q then Some tq else map_of d p)"
      using ih by (simp add: map_of_dict_set)
    then show ?thesis using False tq by auto
  qed
qed

lemma Tree_init_at_root:
  assumes "Tree_init g p = Inr t" "dict_get (hands g) p = Inr h"
  shows "tree_player t = p \<and> root_neutral h t \<and> current_node t = 0 \<and> \<not> is_on_rollout_policy t"
proof -
  from assms(1) obtain r where r: "Node_init g p None None = Inr r"
    and t: "t = \<lparr> tree_player = p, nodes = [r], root_node = 0, current_node = 0,
                  is_on_rollout_policy = False \<rparr>"
    by (auto simp: Tree_init_def rbind_eq_Inr)
  have "node_children r = []" by (rule Node_init_children[OF r])
  moreover have "node_hand r = h" using Node_init_hand[OF r] assms(2) by simp
  ultimately show ?thesis by (simp add: t root_neutral_def)
qed

lemma Simulators_init_at_root:
  assumes d: "draws_at_root g p h" and s: "Simulators_init g = Inr sim"
  shows "at_root p h g sim"
proof -
  from d have wt: "whose_turn g = Inr p" and hp: "dict_get (hands g) p = Inr h"
    unfolding draws_at_root_def by blast+
  have mem: "p \<in> set (player_names g)"
    using wt unfolding whose_turn_def by (rule py_get_mem)
  from s obtain ts where ts: "build_trees g (player_names g) [] = Inr ts"
    and sim: "sim = \<lparr> reset_state = g, game = g, tree_dict = ts \<rparr>"
    by (auto simp: Simulators_init_def rbind_eq_Inr)
  from build_trees_map_of[OF ts, of p] mem obtain t where
    t: "map_of ts p = Some t" "Tree_init g p = Inr t" by blast
  from Tree_init_at_root[OF t(2) hp] t(1) show ?thesis
    unfolding at_root_iff by (simp add: sim)
qed

lemma select_best_action_at_root:
  assumes "root_neutral h t" "current_node t = 0"
  shows "select_best_action t = Inl ValueError \<or> select_best_action t = Inl AttributeError"
proof (cases "node_children (nodes t ! 0) = []")
  case True
  then show ?thesis using assms(2) by (simp add: select_best_action_def np_argmax_def)
next
  case False
  let ?cs = "node_children (nodes t ! 0)"
  let ?xs = "map (\<lambda>c. node_n (nodes t ! c)) ?cs"
  have ne: "?xs \<noteq> []" using False by simp
  then obtain i where i: "np_argmax ?xs = Inr i"
    by (auto simp: np_argmax_def)
  then have "i < length ?cs" using np_argmax_Inr[OF ne, of i] by simp
  then have "?cs ! i \<in> set ?cs" by simp
  then have "node_action (nodes t ! (?cs ! i)) = None"
    using assms(1) unfolding root_neutral_iff by blast
  then show ?thesis using i assms(2) by (simp add: select_best_action_def)
qed

lemma sim_select_best_action_at_root:
  assumes d: "draws_at_root g p h" and r: "at_root p h g sim"
  shows "sim_select_best_action sim = Inl ValueError \<or>
         sim_select_best_action sim = Inl AttributeError"
proof -
  from d have wt: "whose_turn g = Inr p" unfolding draws_at_root_def by blast
  from r have gs: "game sim = g" unfolding at_root_iff by blast
  from r obtain t where t: "map_of (tree_dict sim) p = Some t" "root_neutral h t"
    "current_node t = 0" unfolding at_root_iff by blast
  have "sim_select_best_action sim = select_best_action t"
    using t(1) by (simp add: sim_select_best_action_def sim_whose_turn_def gs wt dict_get_def)
  then show ?thesis using select_best_action_at_root[OF t(2,3)] by simp
qed

lemma moismcts_draws_at_root:
  assumes d: "draws_at_root g p h"
  shows "moismcts fuel rs g n \<noteq> Some (Inr a)"
proof
  assume m: "moismcts fuel rs g n = Some (Inr a)"
  then obtain sim where s: "Simulators_init g = Inr sim"
    by (auto simp: moismcts_def split: sum.splits)
  from m s obtain sim' rs' where it: "iterations n fuel rs sim = Some (Inr (sim', rs'))"
    and b: "sim_select_best_action sim' = Inr a"
    by (auto simp: moismcts_def split: option.splits sum.splits)
  from iterations_at_root[OF d Simulators_init_at_root[OF d s] it]
  have "at_root p h g sim'" .
  from sim_select_best_action_at_root[OF d this] b show False by simp
qed

lemma g_fresh_draws: "draws_at_root g_fresh ''player0'' [0, 0]"
  by (simp add: draws_at_root_def g_fresh_eq kariba_wf_def nonneg_deck_def whose_turn_def
      py_get_def dict_get_def np_sum_def i64_def fits64_def)

text \<open>
  Claim C1 fails on the code. \<^verbatim>\<open>Kariba.__init__\<close> gives every player an empty hand, so on
  the state of the specification's end-to-end example the first event of every simulated
  game is a draw of two cards for player0. The children of the root of player0's tree are
  therefore the neutral nodes of these draws, which have no action attribute, and the final
  \<^verbatim>\<open>select_action(return_best_action=True)\<close> raises AttributeError instead of returning a
  legal action; with no iteration at all the root has no child and \<^verbatim>\<open>np.argmax\<close> of the
  empty list raises ValueError. Whatever the random source, the number of iterations and
  the bound on the length of a simulated game, the search on that state returns no action.
  The comment in \<^verbatim>\<open>moismcts\<close> expects that draw to do nothing at the very first turn.
\<close>

theorem search_fails_on_fresh_state:
  "moismcts 10 [] g_fresh 1 = Some (Inl AttributeError) \<and>
   (\<forall>fuel rs. moismcts fuel rs g_fresh 0 = Some (Inl ValueError)) \<and>
   (\<forall>fuel rs n a. moismcts fuel rs g_fresh n \<noteq> Some (Inr a))"
proof (intro conjI allI)
  show "moismcts 10 [] g_fresh 1 = Some (Inl AttributeError)" by code_simp
next
  fix fuel rs
  have "case Simulators_init g_fresh of Inl e \<Rightarrow> False
        | Inr sim \<Rightarrow> sim_select_best_action sim = Inl ValueError"
    by code_simp
  then show "moismcts fuel rs g_fresh 0 = Some (Inl ValueError)"
    by (auto simp: moismcts_def split: sum.splits)
next
  fix fuel rs n a
  show "moismcts fuel rs g_fresh n \<noteq> Some (Inr a)"
    by (rule moismcts_draws_at_root[OF g_fresh_draws])
qed

end
